theory Spec2Isabelle
  imports Main
begin

section \<open>Integers of the source\<close>

text \<open>
  The C++ code computes with \<open>int\<close>. Signed overflow is undefined there, so coordinates
  are modelled as HOL integers and every theorem below is about the runs in which no
  \<open>int\<close> operation overflows. Division and remainder of C++ truncate towards zero,
  unlike \<open>div\<close> and \<open>mod\<close> of HOL, and are written out. Division by zero is undefined
  in C++; \<open>cpp_div a 0\<close> is \<open>0\<close> here and is never reached for a grid with a
  positive width and height.
\<close>

definition cpp_div :: "int \<Rightarrow> int \<Rightarrow> int" where
  "cpp_div a b = sgn a * sgn b * (\<bar>a\<bar> div \<bar>b\<bar>)"

definition cpp_mod :: "int \<Rightarrow> int \<Rightarrow> int" where
  "cpp_mod a b = a - b * cpp_div a b"

text \<open>\<open>std::clamp(v, lo, hi)\<close>.\<close>

definition clamp :: "int \<Rightarrow> int \<Rightarrow> int \<Rightarrow> int" where
  "clamp v lo hi = (if v < lo then lo else if hi < v then hi else v)"

section \<open>BinaryImage (binary\_image.cpp)\<close>

text \<open>
  The class holds \<open>width_\<close>, \<open>height_\<close> and the row-major vector \<open>pixels_\<close>.
  The field names carry the prefix \<open>img\<close> because the flood fill engine has fields
  \<open>width_\<close> and \<open>height_\<close> of its own.
\<close>

record BinaryImage =
  img_width :: int
  img_height :: int
  img_pixels :: "bool list"

text \<open>The constructor \<open>BinaryImage(width, height, fill_value)\<close>.\<close>

definition BinaryImage_new :: "int \<Rightarrow> int \<Rightarrow> bool \<Rightarrow> BinaryImage" where
  "BinaryImage_new w h fill_value =
     \<lparr>img_width = w, img_height = h, img_pixels = replicate (nat (w * h)) fill_value\<rparr>"

text \<open>\<open>BinaryImage::get\<close>: background outside the grid.\<close>

definition get :: "BinaryImage \<Rightarrow> int \<Rightarrow> int \<Rightarrow> bool" where
  "get img x y =
     (if x < 0 \<or> x \<ge> img_width img \<or> y < 0 \<or> y \<ge> img_height img then False
      else img_pixels img ! nat (y * img_width img + x))"

text \<open>\<open>BinaryImage::set\<close>: a write outside the grid is dropped.\<close>

definition set_pixel :: "BinaryImage \<Rightarrow> int \<Rightarrow> int \<Rightarrow> bool \<Rightarrow> BinaryImage" where
  "set_pixel img x y v =
     (if x \<ge> 0 \<and> x < img_width img \<and> y \<ge> 0 \<and> y < img_height img
      then img\<lparr>img_pixels := (img_pixels img)[nat (y * img_width img + x) := v]\<rparr>
      else img)"

text \<open>
  Every image the class can build: the constructor allocates \<open>width * height\<close> pixels
  and no member changes the dimensions or the length of the vector.
\<close>

definition wf_image :: "BinaryImage \<Rightarrow> bool" where
  "wf_image img \<longleftrightarrow>
     0 \<le> img_width img \<and> 0 \<le> img_height img \<and>
     length (img_pixels img) = nat (img_width img * img_height img)"

definition in_image :: "BinaryImage \<Rightarrow> int \<Rightarrow> int \<Rightarrow> bool" where
  "in_image img x y \<longleftrightarrow> 0 \<le> x \<and> x < img_width img \<and> 0 \<le> y \<and> y < img_height img"

definition all_foreground :: "BinaryImage \<Rightarrow> bool" where
  "all_foreground img \<longleftrightarrow> list_all (\<lambda>b. b) (img_pixels img)"

section \<open>StructuringElement and Morphology (erosion.hpp, erosion.cpp)\<close>

datatype BoundaryMode = Zero | One | Extend | Wrap

datatype MorphOperation = Erosion | Dilation | InnerBoundary | OuterBoundary | Gradient

record StructuringElement =
  se_width :: int
  se_height :: int
  center_x :: int
  center_y :: int
  se_offsets :: "(int \<times> int) list"

text \<open>
  \<open>createSquare\<close>: the outer loop runs \<open>dy\<close> from \<open>-center_y\<close> to \<open>center_y\<close>, the
  inner one \<open>dx\<close> from \<open>-center_x\<close> to \<open>center_x\<close>, appending \<open>(dx, dy)\<close>.
\<close>

definition createSquare :: "int \<Rightarrow> StructuringElement" where
  "createSquare sz =
     (let cx = cpp_div sz 2; cy = cpp_div sz 2 in
      \<lparr>se_width = sz, se_height = sz, center_x = cx, center_y = cy,
       se_offsets = concat (map (\<lambda>dy. map (\<lambda>dx. (dx, dy)) [- cx..cx]) [- cy..cy])\<rparr>)"

definition createCross :: "int \<Rightarrow> StructuringElement" where
  "createCross sz =
     (let cx = cpp_div sz 2; cy = cpp_div sz 2 in
      \<lparr>se_width = sz, se_height = sz, center_x = cx, center_y = cy,
       se_offsets = [(0, 0)]
         @ map (\<lambda>dx. (dx, 0)) (filter (\<lambda>dx. dx \<noteq> 0) [- cx..cx])
         @ map (\<lambda>dy. (0, dy)) (filter (\<lambda>dy. dy \<noteq> 0) [- cy..cy])\<rparr>)"

record Morphology =
  se :: StructuringElement
  operation :: MorphOperation
  boundary :: BoundaryMode

definition getPixelWithBoundary :: "Morphology \<Rightarrow> BinaryImage \<Rightarrow> int \<Rightarrow> int \<Rightarrow> bool" where
  "getPixelWithBoundary m input x y =
     (let w = img_width input; h = img_height input in
      if x \<ge> 0 \<and> x < w \<and> y \<ge> 0 \<and> y < h then get input x y
      else (case boundary m of
              Zero \<Rightarrow> False
            | One \<Rightarrow> True
            | Extend \<Rightarrow> get input (clamp x 0 (w - 1)) (clamp y 0 (h - 1))
            | Wrap \<Rightarrow> get input (cpp_mod (cpp_mod x w + w) w) (cpp_mod (cpp_mod y h + h) h)))"

text \<open>The loop of \<open>checkErosion\<close> over the offsets, leaving at the first background pixel.\<close>

fun erosion_loop :: "Morphology \<Rightarrow> BinaryImage \<Rightarrow> int \<Rightarrow> int \<Rightarrow> (int \<times> int) list \<Rightarrow> bool" where
  "erosion_loop m input x y [] = True"
| "erosion_loop m input x y ((dx, dy) # rest) =
     (if \<not> getPixelWithBoundary m input (x + dx) (y + dy) then False
      else erosion_loop m input x y rest)"

definition checkErosion :: "Morphology \<Rightarrow> BinaryImage \<Rightarrow> int \<Rightarrow> int \<Rightarrow> bool" where
  "checkErosion m input x y = erosion_loop m input x y (se_offsets (se m))"

text \<open>The loop of \<open>checkDilation\<close>, leaving at the first foreground pixel.\<close>

fun dilation_loop :: "Morphology \<Rightarrow> BinaryImage \<Rightarrow> int \<Rightarrow> int \<Rightarrow> (int \<times> int) list \<Rightarrow> bool" where
  "dilation_loop m input x y [] = False"
| "dilation_loop m input x y ((dx, dy) # rest) =
     (if getPixelWithBoundary m input (x + dx) (y + dy) then True
      else dilation_loop m input x y rest)"

definition checkDilation :: "Morphology \<Rightarrow> BinaryImage \<Rightarrow> int \<Rightarrow> int \<Rightarrow> bool" where
  "checkDilation m input x y = dilation_loop m input x y (se_offsets (se m))"

definition checkPixel :: "Morphology \<Rightarrow> BinaryImage \<Rightarrow> int \<Rightarrow> int \<Rightarrow> bool" where
  "checkPixel m input x y =
     (let original = get input x y in
      case operation m of
        Erosion \<Rightarrow> checkErosion m input x y
      | Dilation \<Rightarrow> checkDilation m input x y
      | InnerBoundary \<Rightarrow> original \<and> \<not> checkErosion m input x y
      | OuterBoundary \<Rightarrow> checkDilation m input x y \<and> \<not> original
      | Gradient \<Rightarrow> checkDilation m input x y \<noteq> checkErosion m input x y)"

text \<open>
  \<open>Morphology::apply\<close>: rows \<open>y = 0 .. height - 1\<close>, in each row \<open>x = 0 .. width - 1\<close>,
  writing \<open>checkPixel(input, x, y)\<close> into a fresh image.
\<close>

definition apply_row :: "Morphology \<Rightarrow> BinaryImage \<Rightarrow> int \<Rightarrow> BinaryImage \<Rightarrow> BinaryImage" where
  "apply_row m input y out =
     fold (\<lambda>x out. set_pixel out x y (checkPixel m input x y)) [0..img_width input - 1] out"

definition apply_image :: "Morphology \<Rightarrow> BinaryImage \<Rightarrow> BinaryImage" where
  "apply_image m input =
     fold (apply_row m input) [0..img_height input - 1]
       (BinaryImage_new (img_width input) (img_height input) False)"

section \<open>FloodFill (floodfill.hpp, floodfill.cpp)\<close>

datatype Connectivity = Four | Eight

datatype FillAlgorithm = BFS | DFS

datatype PixelState = Unvisited | InQueue | Processed | Boundary | Unsafe

text \<open>
  The members of the class, without the trailing underscore of the source. The counters
  are \<open>size_t\<close> in the source; they count pixels of a grid whose sides are \<open>int\<close>,
  stay far below \<open>2 ^ 64\<close>, and are natural numbers here. The frontier is the
  \<open>std::deque\<close>, front first.
\<close>

record FloodFill =
  connectivity :: Connectivity
  algorithm :: FillAlgorithm
  safety_radius :: int
  offsets :: "(int \<times> int) list"
  disk_offsets :: "(int \<times> int) list"
  source :: BinaryImage
  result :: BinaryImage
  safety_mask :: BinaryImage
  state :: "PixelState list list"
  frontier :: "(int \<times> int) list"
  current_pixel :: "int \<times> int"
  target_value :: bool
  initialized :: bool
  filled_count :: nat
  unsafe_count :: nat
  width :: int
  height :: int

definition updateOffsets :: "FloodFill \<Rightarrow> FloodFill" where
  "updateOffsets e =
     e\<lparr>offsets := [(0, - 1), (0, 1), (- 1, 0), (1, 0)]
          @ (if connectivity e = Eight then [(- 1, - 1), (1, - 1), (- 1, 1), (1, 1)] else [])\<rparr>"

definition updateDiskOffsets :: "FloodFill \<Rightarrow> FloodFill" where
  "updateDiskOffsets e =
     (if safety_radius e \<le> 0 then e\<lparr>disk_offsets := []\<rparr>
      else
        (let r = safety_radius e; r_squared = r * r in
         e\<lparr>disk_offsets :=
             concat (map (\<lambda>dy. concat (map (\<lambda>dx. if dx * dx + dy * dy \<le> r_squared
                                                 then [(dx, dy)] else []) [- r..r])) [- r..r])\<rparr>))"

text \<open>The constructor, with the default member initialisers of the header.\<close>

definition FloodFill_new :: "Connectivity \<Rightarrow> FillAlgorithm \<Rightarrow> int \<Rightarrow> FloodFill" where
  "FloodFill_new c a r =
     updateDiskOffsets (updateOffsets
       \<lparr>connectivity = c, algorithm = a, safety_radius = r,
        offsets = [], disk_offsets = [],
        source = BinaryImage_new 1 1 False,
        result = BinaryImage_new 1 1 False,
        safety_mask = BinaryImage_new 1 1 False,
        state = [], frontier = [], current_pixel = (- 1, - 1),
        target_value = False, initialized = False,
        filled_count = 0, unsafe_count = 0, width = 0, height = 0\<rparr>)"

definition setConnectivity :: "FloodFill \<Rightarrow> Connectivity \<Rightarrow> FloodFill" where
  "setConnectivity e c = updateOffsets (e\<lparr>connectivity := c\<rparr>)"

definition setAlgorithm :: "FloodFill \<Rightarrow> FillAlgorithm \<Rightarrow> FloodFill" where
  "setAlgorithm e a = e\<lparr>algorithm := a\<rparr>"

definition setSafetyRadius :: "FloodFill \<Rightarrow> int \<Rightarrow> FloodFill" where
  "setSafetyRadius e r = updateDiskOffsets (e\<lparr>safety_radius := r\<rparr>)"

definition isValid :: "FloodFill \<Rightarrow> int \<Rightarrow> int \<Rightarrow> bool" where
  "isValid e x y \<longleftrightarrow> x \<ge> 0 \<and> x < width e \<and> y \<ge> 0 \<and> y < height e"

text \<open>The loop of \<open>checkCircleFits\<close> over the disk offsets, with its two early returns.\<close>

fun circle_loop :: "FloodFill \<Rightarrow> int \<Rightarrow> int \<Rightarrow> (int \<times> int) list \<Rightarrow> bool" where
  "circle_loop e cx cy [] = True"
| "circle_loop e cx cy ((dx, dy) # rest) =
     (let nx = cx + dx; ny = cy + dy in
      if \<not> isValid e nx ny then False
      else if get (source e) nx ny \<noteq> target_value e then False
      else circle_loop e cx cy rest)"

definition checkCircleFits :: "FloodFill \<Rightarrow> int \<Rightarrow> int \<Rightarrow> bool" where
  "checkCircleFits e cx cy =
     (if safety_radius e \<le> 0
      then isValid e cx cy \<and> get (source e) cx cy = target_value e
      else circle_loop e cx cy (disk_offsets e))"

definition getCirclePositions :: "FloodFill \<Rightarrow> int \<Rightarrow> int \<Rightarrow> (int \<times> int) list" where
  "getCirclePositions e cx cy = map (\<lambda>(dx, dy). (cx + dx, cy + dy)) (disk_offsets e)"

text \<open>
  \<open>precomputeSafetyMask\<close>: a fresh mask, then one of two double loops over the rows
  \<open>y\<close> and the columns \<open>x\<close>. Both read the engine (source, target value, disk) and
  write only the mask.
\<close>

definition precomputeSafetyMask :: "FloodFill \<Rightarrow> FloodFill" where
  "precomputeSafetyMask e =
     (let fresh = BinaryImage_new (width e) (height e) False in
      if safety_radius e \<le> 0
      then e\<lparr>safety_mask :=
             fold (\<lambda>y msk.
                     fold (\<lambda>x msk. if get (source e) x y = target_value e
                                      then set_pixel msk x y True else msk)
                       [0..width e - 1] msk)
               [0..height e - 1] fresh\<rparr>
      else e\<lparr>safety_mask :=
             fold (\<lambda>y msk.
                     fold (\<lambda>x msk. if get (source e) x y = target_value e
                                      then (if checkCircleFits e x y
                                            then set_pixel msk x y True else msk)
                                      else msk)
                       [0..width e - 1] msk)
               [0..height e - 1] fresh\<rparr>)"

text \<open>
  Reading and writing \<open>state_[y][x]\<close>. The source indexes the vectors without a check;
  every access of \<open>initialize\<close> and \<open>step\<close> is at a coordinate that passed
  \<open>isValid\<close> or came from the frontier, and the invariant \<open>grid_ok\<close> below shows that
  these are inside the vectors.
\<close>

definition state_at :: "PixelState list list \<Rightarrow> int \<Rightarrow> int \<Rightarrow> PixelState" where
  "state_at st x y = st ! nat y ! nat x"

definition state_set :: "PixelState list list \<Rightarrow> int \<Rightarrow> int \<Rightarrow> PixelState \<Rightarrow> PixelState list list" where
  "state_set st x y v = st[nat y := (st ! nat y)[nat x := v]]"

text \<open>
  \<open>initialize\<close>, for an image whose width and height are not negative. For a negative
  side the conversion of the \<open>int\<close> to the size of the vector in \<open>state_.resize\<close> wraps
  around and the call throws \<open>std::length_error\<close>, before the frontier is cleared and
  before the bounds test; that exit is not part of this function, and the theorems about
  what \<open>initialize\<close> returns for a seed outside the grid assume the sides non-negative.
\<close>

definition initialize :: "FloodFill \<Rightarrow> BinaryImage \<Rightarrow> int \<Rightarrow> int \<Rightarrow> FloodFill" where
  "initialize e img start_x start_y =
     (let e1 = e\<lparr>width := img_width img, height := img_height img, source := img,
                 result := BinaryImage_new (img_width img) (img_height img) False,
                 state := replicate (nat (img_height img))
                            (replicate (nat (img_width img)) Unvisited),
                 frontier := [], filled_count := 0, unsafe_count := 0,
                 current_pixel := (- 1, - 1)\<rparr>
      in if \<not> isValid e1 start_x start_y then e1\<lparr>initialized := False\<rparr>
         else
           (let e2 = precomputeSafetyMask (e1\<lparr>target_value := get (source e1) start_x start_y\<rparr>)
            in if \<not> get (safety_mask e2) start_x start_y
               then e2\<lparr>state := state_set (state e2) start_x start_y Unsafe,
                       unsafe_count := unsafe_count e2 + 1,
                       initialized := True\<rparr>
               else e2\<lparr>frontier := frontier e2 @ [(start_x, start_y)],
                       state := state_set (state e2) start_x start_y InQueue,
                       initialized := True\<rparr>))"

text \<open>
  The body of the neighbour loop of \<open>step\<close> for one offset, and the loop. \<open>x\<close> and
  \<open>y\<close> are the pixel taken from the frontier.
\<close>

definition visit_neighbor :: "int \<Rightarrow> int \<Rightarrow> int \<times> int \<Rightarrow> FloodFill \<Rightarrow> FloodFill" where
  "visit_neighbor x y d e =
     (let nx = x + fst d; ny = y + snd d in
      if \<not> isValid e nx ny then e
      else if state_at (state e) nx ny \<noteq> Unvisited then e
      else if get (source e) nx ny \<noteq> target_value e
           then e\<lparr>state := state_set (state e) nx ny Boundary\<rparr>
      else if \<not> get (safety_mask e) nx ny
           then e\<lparr>state := state_set (state e) nx ny Unsafe,
                   unsafe_count := unsafe_count e + 1\<rparr>
      else e\<lparr>frontier := frontier e @ [(nx, ny)],
              state := state_set (state e) nx ny InQueue\<rparr>)"

fun neighbors_loop :: "int \<Rightarrow> int \<Rightarrow> (int \<times> int) list \<Rightarrow> FloodFill \<Rightarrow> FloodFill" where
  "neighbors_loop x y [] e = e"
| "neighbors_loop x y (d # ds) e = neighbors_loop x y ds (visit_neighbor x y d e)"

text \<open>
  \<open>step\<close> returns its boolean and the engine after the call. \<open>front\<close>/\<open>pop_front\<close>
  are \<open>hd\<close>/\<open>tl\<close>, \<open>back\<close>/\<open>pop_back\<close> are \<open>last\<close>/\<open>butlast\<close>; both are used
  on a non-empty frontier only.
\<close>

definition step :: "FloodFill \<Rightarrow> bool \<times> FloodFill" where
  "step e =
     (if \<not> initialized e \<or> frontier e = [] then (False, e)
      else
        (let pixel = (if algorithm e = BFS then hd (frontier e) else last (frontier e));
             e1 = (if algorithm e = BFS then e\<lparr>frontier := tl (frontier e)\<rparr>
                   else e\<lparr>frontier := butlast (frontier e)\<rparr>);
             x = fst pixel; y = snd pixel;
             e2 = e1\<lparr>current_pixel := pixel\<rparr>;
             e3 = e2\<lparr>state := state_set (state e2) x y Processed,
                     result := set_pixel (result e2) x y True,
                     filled_count := filled_count e2 + 1\<rparr>;
             e4 = neighbors_loop x y (offsets e3) e3
         in (frontier e4 \<noteq> [], e4)))"

definition isComplete :: "FloodFill \<Rightarrow> bool" where
  "isComplete e \<longleftrightarrow> frontier e = [] \<and> initialized e"

definition getState :: "FloodFill \<Rightarrow> int \<Rightarrow> int \<Rightarrow> PixelState" where
  "getState e x y = (if \<not> isValid e x y then Unvisited else state_at (state e) x y)"

text \<open>\<open>n\<close> calls of \<open>step\<close> in a row, as the caller's animation loop makes them.\<close>

fun steps :: "nat \<Rightarrow> FloodFill \<Rightarrow> FloodFill" where
  "steps 0 e = e"
| "steps (Suc n) e = steps n (snd (step e))"

section \<open>Invariants of a fill session\<close>

text \<open>The state grid has \<open>height_\<close> rows of \<open>width_\<close> entries, as \<open>initialize\<close> sizes it.\<close>

definition grid_ok :: "FloodFill \<Rightarrow> bool" where
  "grid_ok e \<longleftrightarrow>
     length (state e) = nat (height e) \<and> (\<forall>row \<in> set (state e). length row = nat (width e))"

text \<open>
  What the neighbour loop of \<open>step\<close> decides for a neighbour that is inside the grid and
  still \<open>Unvisited\<close>: the three tests of the loop body, in the order of the source.
\<close>

definition classify :: "FloodFill \<Rightarrow> int \<Rightarrow> int \<Rightarrow> PixelState" where
  "classify e nx ny =
     (if get (source e) nx ny \<noteq> target_value e then Boundary
      else if \<not> get (safety_mask e) nx ny then Unsafe
      else InQueue)"

text \<open>The members that \<open>initialize\<close> fixes for a session and that the traversal reads.\<close>

definition same_setup :: "FloodFill \<Rightarrow> FloodFill \<Rightarrow> bool" where
  "same_setup e e' \<longleftrightarrow>
     width e' = width e \<and> height e' = height e \<and> source e' = source e \<and>
     target_value e' = target_value e \<and> safety_mask e' = safety_mask e \<and>
     offsets e' = offsets e"

text \<open>
  The pixels a fill from \<open>seed\<close> can enter: the seed when it is inside the grid and safe,
  and every safe same-valued neighbour (by the offset list) of such a pixel.
\<close>

inductive_set reach :: "FloodFill \<Rightarrow> int \<times> int \<Rightarrow> (int \<times> int) set"
  for e :: FloodFill and seed :: "int \<times> int" where
  reach_seed:
    "isValid e (fst seed) (snd seed) \<Longrightarrow> classify e (fst seed) (snd seed) = InQueue \<Longrightarrow>
     seed \<in> reach e seed"
| reach_step:
    "q \<in> reach e seed \<Longrightarrow> d \<in> set (offsets e) \<Longrightarrow>
     isValid e (fst q + fst d) (snd q + snd d) \<Longrightarrow>
     classify e (fst q + fst d) (snd q + snd d) = InQueue \<Longrightarrow>
     (fst q + fst d, snd q + snd d) \<in> reach e seed"

text \<open>The pixels the traversal looks at: the seed and the neighbours of entered pixels.\<close>

definition touched :: "FloodFill \<Rightarrow> int \<times> int \<Rightarrow> int \<times> int \<Rightarrow> bool" where
  "touched e seed p \<longleftrightarrow>
     p = seed \<or> (\<exists>q \<in> reach e seed. \<exists>d \<in> set (offsets e). p = (fst q + fst d, snd q + snd d))"

text \<open>
  The invariant between two calls of \<open>step\<close>, in terms of \<open>getState\<close>: the frontier holds
  exactly the \<open>InQueue\<close> pixels, each once; the counters count the \<open>Processed\<close> and the
  \<open>Unsafe\<close> pixels; the result grid marks the \<open>Processed\<close> pixels; every visited pixel
  carries the state its source value and its mask entry call for, and was looked at from
  the seed.
\<close>

definition frontier_ok :: "FloodFill \<Rightarrow> bool" where
  "frontier_ok e \<longleftrightarrow>
     grid_ok e \<and> distinct (frontier e) \<and>
     (\<forall>p. p \<in> set (frontier e) \<longleftrightarrow> getState e (fst p) (snd p) = InQueue) \<and>
     filled_count e = card {p. getState e (fst p) (snd p) = Processed}"

definition marks_ok :: "FloodFill \<Rightarrow> int \<times> int \<Rightarrow> bool" where
  "marks_ok e seed \<longleftrightarrow>
     unsafe_count e = card {p. getState e (fst p) (snd p) = Unsafe} \<and>
     wf_image (result e) \<and> img_width (result e) = width e \<and> img_height (result e) = height e \<and>
     (\<forall>x y. get (result e) x y = (getState e x y = Processed)) \<and>
     (\<forall>x y. getState e x y \<noteq> Unvisited \<longrightarrow>
        touched e seed (x, y) \<and>
        (getState e x y = classify e x y \<or>
         (getState e x y = Processed \<and> classify e x y = InQueue))) \<and>
     getState e (fst seed) (snd seed) \<noteq> Unvisited"

text \<open>Every neighbour of a \<open>Processed\<close> pixel outside \<open>X\<close> has been looked at.\<close>

definition closed_except :: "FloodFill \<Rightarrow> (int \<times> int) set \<Rightarrow> bool" where
  "closed_except e X \<longleftrightarrow>
     (\<forall>x y. \<forall>d \<in> set (offsets e).
        getState e x y = Processed \<longrightarrow> (x, y) \<notin> X \<longrightarrow>
        isValid e (x + fst d) (y + snd d) \<longrightarrow> getState e (x + fst d) (y + snd d) \<noteq> Unvisited)"

text \<open>The state grid a completed fill from \<open>seed\<close> ends in.\<close>

definition final_state :: "FloodFill \<Rightarrow> int \<times> int \<Rightarrow> int \<Rightarrow> int \<Rightarrow> PixelState" where
  "final_state e seed x y =
     (if isValid e x y \<and> touched e seed (x, y)
      then (if classify e x y = InQueue then Processed else classify e x y)
      else Unvisited)"

text \<open>
  The first half of an active \<open>step\<close>, named for the proofs: the pixel taken from the
  frontier, the frontier left behind, and the engine once that pixel is marked
  \<open>Processed\<close>, written into the result and counted, before the neighbour loop runs.
\<close>

definition popped :: "FloodFill \<Rightarrow> int \<times> int" where
  "popped e = (if algorithm e = BFS then hd (frontier e) else last (frontier e))"

definition remaining :: "FloodFill \<Rightarrow> (int \<times> int) list" where
  "remaining e = (if algorithm e = BFS then tl (frontier e) else butlast (frontier e))"

definition mark_processed :: "FloodFill \<Rightarrow> FloodFill" where
  "mark_processed e =
     e\<lparr>frontier := remaining e, current_pixel := popped e,
       state := state_set (state e) (fst (popped e)) (snd (popped e)) Processed,
       result := set_pixel (result e) (fst (popped e)) (snd (popped e)) True,
       filled_count := filled_count e + 1\<rparr>"

text \<open>The invariant of a session between two calls of \<open>step\<close>.\<close>

definition session_inv :: "FloodFill \<Rightarrow> int \<times> int \<Rightarrow> bool" where
  "session_inv e seed \<longleftrightarrow> frontier_ok e \<and> marks_ok e seed \<and> closed_except e {}"

section \<open>Structuring elements\<close>

lemma cpp_div_2_nonneg: "0 \<le> n \<Longrightarrow> cpp_div n 2 = n div 2"
  by (cases "n = 0") (simp_all add: cpp_div_def)

lemma square_grid_product:
  "concat (map (\<lambda>dy. map (\<lambda>dx. (dx, dy)) xs) ys) = map prod.swap (List.product ys xs)"
  by (induction ys) simp_all

lemma set_square_grid:
  "set (concat (map (\<lambda>dy. map (\<lambda>dx. (dx, dy)) [a..b]) [c..d])) =
     {(dx, dy). a \<le> dx \<and> dx \<le> b \<and> c \<le> dy \<and> dy \<le> d}"
  by (auto simp: square_grid_product)

lemma distinct_square_grid:
  "distinct (concat (map (\<lambda>dy. map (\<lambda>dx. (dx::int, dy::int)) [a..b]) [c..d]))"
  by (simp add: square_grid_product distinct_map distinct_product)

lemma length_square_grid:
  "length (concat (map (\<lambda>dy. map (\<lambda>dx. (dx::int, dy::int)) [a..b]) [c..d])) =
     length [a..b] * length [c..d]"
  by (simp add: square_grid_product)

text \<open>
  Claim C8. For every size \<open>n \<ge> 1\<close>, \<open>createSquare n\<close> has both centres at
  \<open>n / 2\<close> (integer division) and its offsets are exactly the pairs \<open>(dx, dy)\<close> with
  \<open>- (n / 2) \<le> dx \<le> n / 2\<close> and \<open>- (n / 2) \<le> dy \<le> n / 2\<close>, each once, which makes
  \<open>(2 * (n / 2) + 1)\<^sup>2\<close> offsets. At \<open>n = 4\<close> the offsets span \<open>- 2 .. 2\<close>, five wide.
\<close>

theorem createSquare_footprint:
  assumes "1 \<le> n"
  shows "center_x (createSquare n) = n div 2 \<and> center_y (createSquare n) = n div 2 \<and>
         set (se_offsets (createSquare n)) =
           {(dx, dy). - (n div 2) \<le> dx \<and> dx \<le> n div 2 \<and> - (n div 2) \<le> dy \<and> dy \<le> n div 2} \<and>
         distinct (se_offsets (createSquare n)) \<and>
         int (length (se_offsets (createSquare n))) = (2 * (n div 2) + 1)\<^sup>2"
proof -
  from assms have c: "cpp_div n 2 = n div 2" by (simp add: cpp_div_2_nonneg)
  have h: "0 \<le> n div 2" using assms by simp
  have offs: "se_offsets (createSquare n) =
      concat (map (\<lambda>dy. map (\<lambda>dx. (dx, dy)) [- (n div 2)..n div 2]) [- (n div 2)..n div 2])"
    by (simp add: createSquare_def Let_def c)
  have cen: "center_x (createSquare n) = n div 2 \<and> center_y (createSquare n) = n div 2"
    by (simp add: createSquare_def Let_def c)
  have len: "int (length [- (n div 2)..n div 2]) = 2 * (n div 2) + 1"
    using h by simp
  have "int (length (se_offsets (createSquare n))) =
          int (length [- (n div 2)..n div 2]) * int (length [- (n div 2)..n div 2])"
    by (simp only: offs length_square_grid of_nat_mult)
  also have "\<dots> = (2 * (n div 2) + 1)\<^sup>2"
    by (simp only: len power2_eq_square)
  finally have l: "int (length (se_offsets (createSquare n))) = (2 * (n div 2) + 1)\<^sup>2" .
  have s: "set (se_offsets (createSquare n)) =
           {(dx, dy). - (n div 2) \<le> dx \<and> dx \<le> n div 2 \<and> - (n div 2) \<le> dy \<and> dy \<le> n div 2}"
    by (simp only: offs set_square_grid)
  have d: "distinct (se_offsets (createSquare n))"
    by (simp only: offs distinct_square_grid)
  from cen s d l show ?thesis by blast
qed

theorem createSquare_footprint_witness:
  "(1::int) \<le> 4 \<and> center_x (createSquare 4) = 2 \<and> center_y (createSquare 4) = 2 \<and>
   set (se_offsets (createSquare 4)) = {(dx, dy). - 2 \<le> dx \<and> dx \<le> 2 \<and> - 2 \<le> dy \<and> dy \<le> 2} \<and>
   length (se_offsets (createSquare 4)) = 25"
  using createSquare_footprint [of 4] by simp

section \<open>Images and morphology\<close>

subsection \<open>Row-major indexing\<close>

lemma index_less:
  fixes x y w h :: int
  assumes "0 \<le> x" "x < w" "0 \<le> y" "y < h"
  shows "0 \<le> y * w + x \<and> y * w + x < w * h"
proof -
  have "y * w + x < y * w + w" using assms by simp
  also have "\<dots> = (y + 1) * w" by (simp add: algebra_simps)
  also have "\<dots> \<le> h * w" using assms by (intro mult_right_mono) auto
  finally show ?thesis using assms by (simp add: mult.commute)
qed

lemma index_inj:
  fixes x y x' y' w :: int
  assumes "0 \<le> x" "x < w" "0 \<le> x'" "x' < w" and e: "y * w + x = y' * w + x'"
  shows "x = x' \<and> y = y'"
proof -
  have "x = (y * w + x) mod w" using assms(1,2) by simp
  also have "\<dots> = (y' * w + x') mod w" by (simp only: e)
  also have "\<dots> = x'" using assms(3,4) by simp
  finally have x: "x = x'" .
  have "y = (y * w + x) div w" using assms(1,2) by simp
  also have "\<dots> = (y' * w + x') div w" by (simp only: e)
  also have "\<dots> = y'" using assms(3,4) by simp
  finally have "y = y'" .
  with x show ?thesis by simp
qed

lemma nat_index_eq:
  fixes x y x' y' w h :: int
  assumes "0 \<le> x" "x < w" "0 \<le> y" "y < h" "0 \<le> x'" "x' < w" "0 \<le> y'" "y' < h"
  shows "nat (y * w + x) = nat (y' * w + x') \<longleftrightarrow> x = x' \<and> y = y'"
proof
  assume e: "nat (y * w + x) = nat (y' * w + x')"
  have "0 \<le> y * w + x" "0 \<le> y' * w + x'" using index_less assms by blast+
  with e have "y * w + x = y' * w + x'" by simp
  with index_inj assms show "x = x' \<and> y = y'" by blast
qed simp

subsection \<open>BinaryImage\<close>

lemma set_pixel_dims [simp]:
  "img_width (set_pixel img x y v) = img_width img"
  "img_height (set_pixel img x y v) = img_height img"
  "length (img_pixels (set_pixel img x y v)) = length (img_pixels img)"
  by (simp_all add: set_pixel_def)

lemma in_image_set_pixel [simp]: "in_image (set_pixel img x y v) x' y' = in_image img x' y'"
  by (simp add: in_image_def)

lemma wf_image_set_pixel [simp]: "wf_image img \<Longrightarrow> wf_image (set_pixel img x y v)"
  by (simp add: wf_image_def)

lemma wf_image_new: "0 \<le> w \<Longrightarrow> 0 \<le> h \<Longrightarrow> wf_image (BinaryImage_new w h v)"
  by (simp add: wf_image_def BinaryImage_new_def)

lemma get_outside: "\<not> in_image img x y \<Longrightarrow> get img x y = False"
  by (auto simp: get_def in_image_def)

lemma get_inside: "in_image img x y \<Longrightarrow> get img x y = img_pixels img ! nat (y * img_width img + x)"
  by (auto simp: get_def in_image_def)

lemma get_set_pixel:
  assumes "wf_image img"
  shows "get (set_pixel img x y v) x' y' =
           (if in_image img x y \<and> x' = x \<and> y' = y then v else get img x' y')"
proof (cases "in_image img x y")
  case False
  then show ?thesis by (auto simp: set_pixel_def in_image_def)
next
  case xy: True
  show ?thesis
  proof (cases "in_image img x' y'")
    case False
    then show ?thesis using xy by (auto simp: get_outside)
  next
    case True
    have l: "nat (y * img_width img + x) < length (img_pixels img)"
      using assms xy index_less [of x "img_width img" y "img_height img"]
      by (simp add: wf_image_def in_image_def nat_less_iff)
    have e: "(nat (y * img_width img + x) = nat (y' * img_width img + x')) = (x = x' \<and> y = y')"
      using xy True by (intro nat_index_eq [where h = "img_height img"]) (simp_all add: in_image_def)
    have "get (set_pixel img x y v) x' y' =
            (img_pixels img)[nat (y * img_width img + x) := v] ! nat (y' * img_width img + x')"
      using xy True by (simp add: get_inside) (simp add: set_pixel_def in_image_def)
    also have "\<dots> = (if x' = x \<and> y' = y then v else get img x' y')"
      using l e True by (auto simp: nth_list_update get_inside)
    finally show ?thesis using xy by simp
  qed
qed

lemma get_new: "get (BinaryImage_new w h v) x y = (in_image (BinaryImage_new w h v) x y \<and> v)"
proof (cases "in_image (BinaryImage_new w h v) x y")
  case False
  then show ?thesis by (simp add: get_outside)
next
  case True
  then have "nat (y * w + x) < nat (w * h)"
    using index_less [of x w y h] by (simp add: in_image_def BinaryImage_new_def nat_less_iff)
  then show ?thesis using True by (simp add: get_inside) (simp add: BinaryImage_new_def)
qed

text \<open>
  The two nested loops that write an image pixel by pixel: \<open>c x y\<close> says whether the body
  writes at \<open>(x, y)\<close>, \<open>f x y\<close> what it writes.
\<close>

lemma fold_row_props:
  assumes "wf_image out"
  shows "wf_image (fold (\<lambda>x out. if c x then set_pixel out x y (f x) else out) xs out) \<and>
         img_width (fold (\<lambda>x out. if c x then set_pixel out x y (f x) else out) xs out) = img_width out \<and>
         img_height (fold (\<lambda>x out. if c x then set_pixel out x y (f x) else out) xs out) = img_height out \<and>
         (\<forall>x' y'. get (fold (\<lambda>x out. if c x then set_pixel out x y (f x) else out) xs out) x' y' =
            (if in_image out x' y' \<and> y' = y \<and> x' \<in> set xs \<and> c x' then f x' else get out x' y'))"
  using assms
proof (induction xs arbitrary: out rule: rev_induct)
  case Nil
  then show ?case by simp
next
  case (snoc a xs)
  let ?o = "fold (\<lambda>x out. if c x then set_pixel out x y (f x) else out) xs out"
  from snoc have ih: "wf_image ?o" "img_width ?o = img_width out" "img_height ?o = img_height out"
    "\<And>x' y'. get ?o x' y' = (if in_image out x' y' \<and> y' = y \<and> x' \<in> set xs \<and> c x' then f x' else get out x' y')"
    by blast+
  have io: "\<And>x' y'. in_image ?o x' y' = in_image out x' y'"
    by (simp add: in_image_def ih)
  show ?case
    by (auto simp: ih io get_set_pixel)
qed

lemma fold_grid_props:
  assumes "wf_image out"
  shows "wf_image (fold (\<lambda>y out. fold (\<lambda>x out. if c x y then set_pixel out x y (f x y) else out) xs out) ys out) \<and>
         img_width (fold (\<lambda>y out. fold (\<lambda>x out. if c x y then set_pixel out x y (f x y) else out) xs out) ys out) = img_width out \<and>
         img_height (fold (\<lambda>y out. fold (\<lambda>x out. if c x y then set_pixel out x y (f x y) else out) xs out) ys out) = img_height out \<and>
         (\<forall>x' y'. get (fold (\<lambda>y out. fold (\<lambda>x out. if c x y then set_pixel out x y (f x y) else out) xs out) ys out) x' y' =
            (if in_image out x' y' \<and> y' \<in> set ys \<and> x' \<in> set xs \<and> c x' y' then f x' y' else get out x' y'))"
  using assms
proof (induction ys arbitrary: out rule: rev_induct)
  case Nil
  then show ?case by simp
next
  case (snoc a ys)
  let ?o = "fold (\<lambda>y out. fold (\<lambda>x out. if c x y then set_pixel out x y (f x y) else out) xs out) ys out"
  from snoc have ih: "wf_image ?o" "img_width ?o = img_width out" "img_height ?o = img_height out"
    "\<And>x' y'. get ?o x' y' = (if in_image out x' y' \<and> y' \<in> set ys \<and> x' \<in> set xs \<and> c x' y' then f x' y' else get out x' y')"
    by blast+
  have io: "\<And>x' y'. in_image ?o x' y' = in_image out x' y'"
    by (simp add: in_image_def ih)
  note r = fold_row_props [OF ih(1), of "\<lambda>x. c x a" a "\<lambda>x. f x a" xs]
  show ?case
    using r by (auto simp: ih io)
qed

subsection \<open>Morphology\<close>

lemma erosion_loop_all:
  "erosion_loop m input x y ds =
     (\<forall>d \<in> set ds. getPixelWithBoundary m input (x + fst d) (y + snd d))"
  by (induction m input x y ds rule: erosion_loop.induct) auto

lemma dilation_loop_ex:
  "dilation_loop m input x y ds =
     (\<exists>d \<in> set ds. getPixelWithBoundary m input (x + fst d) (y + snd d))"
  by (induction m input x y ds rule: dilation_loop.induct) auto

lemma getPixelWithBoundary_inside:
  "in_image input x y \<Longrightarrow> getPixelWithBoundary m input x y = get input x y"
  by (simp add: getPixelWithBoundary_def in_image_def)

lemma apply_image_props:
  assumes "0 \<le> img_width input" "0 \<le> img_height input"
  shows "wf_image (apply_image m input) \<and>
         img_width (apply_image m input) = img_width input \<and>
         img_height (apply_image m input) = img_height input \<and>
         (\<forall>x y. get (apply_image m input) x y = (in_image input x y \<and> checkPixel m input x y))"
proof -
  let ?new = "BinaryImage_new (img_width input) (img_height input) False"
  have wf: "wf_image ?new" using assms by (rule wf_image_new)
  have dims: "img_width ?new = img_width input" "img_height ?new = img_height input"
    by (simp_all add: BinaryImage_new_def)
  have inew: "\<And>x y. in_image ?new x y = in_image input x y"
    by (simp add: in_image_def dims)
  have eq: "apply_image m input =
      fold (\<lambda>y out. fold (\<lambda>x out. if True then set_pixel out x y (checkPixel m input x y) else out)
              [0..img_width input - 1] out) [0..img_height input - 1] ?new"
    by (simp add: apply_image_def apply_row_def [abs_def])
  note r = fold_grid_props [OF wf, of "\<lambda>x y. True" "\<lambda>x y. checkPixel m input x y"
      "[0..img_width input - 1]" "[0..img_height input - 1]"]
  show ?thesis
    unfolding eq using r
    by (auto simp: dims inew get_new in_image_def)
qed

lemma get_apply_image:
  "in_image input x y \<Longrightarrow> get (apply_image m input) x y = checkPixel m input x y"
proof -
  assume i: "in_image input x y"
  then have "0 \<le> img_width input" "0 \<le> img_height input" by (auto simp: in_image_def)
  from apply_image_props [OF this] i show ?thesis by blast
qed

text \<open>A structuring element that covers its own centre sits between erosion and dilation.\<close>

lemma erosion_le_original:
  assumes "(0, 0) \<in> set (se_offsets (se m))" "in_image input x y" "checkErosion m input x y"
  shows "get input x y"
proof -
  from assms(3) have "\<forall>d \<in> set (se_offsets (se m)). getPixelWithBoundary m input (x + fst d) (y + snd d)"
    by (simp add: checkErosion_def erosion_loop_all)
  with assms(1) have "getPixelWithBoundary m input (x + fst (0::int, 0::int)) (y + snd (0::int, 0::int))"
    by blast
  with assms(2) show ?thesis by (simp add: getPixelWithBoundary_inside)
qed

lemma original_le_dilation:
  assumes "(0, 0) \<in> set (se_offsets (se m))" "in_image input x y" "get input x y"
  shows "checkDilation m input x y"
proof -
  from assms(2,3) have "getPixelWithBoundary m input (x + fst (0::int, 0::int)) (y + snd (0::int, 0::int))"
    by (simp add: getPixelWithBoundary_inside)
  with assms(1) have "\<exists>d \<in> set (se_offsets (se m)). getPixelWithBoundary m input (x + fst d) (y + snd d)"
    by blast
  then show ?thesis by (simp add: checkDilation_def dilation_loop_ex)
qed

lemma check_loops_ignore_operation:
  "checkErosion (m\<lparr>operation := op\<rparr>) input x y = checkErosion m input x y"
  "checkDilation (m\<lparr>operation := op\<rparr>) input x y = checkDilation m input x y"
  by (simp_all add: checkErosion_def checkDilation_def erosion_loop_all dilation_loop_ex
      getPixelWithBoundary_def)

text \<open>
  Claim C2 says that for every structuring element the gradient is the union of the inner
  and the outer boundary. A structuring element that does not cover its own centre
  refutes it: on the row \<open>0 1 0\<close> with the offsets \<open>(- 1, 0)\<close> and \<open>(1, 0)\<close>, the
  middle pixel is in the inner boundary and not in the gradient.
\<close>

theorem gradient_union_counterexample:
  "in_image \<lparr>img_width = 3, img_height = 1, img_pixels = [False, True, False]\<rparr> 1 0 \<and>
   get (apply_image \<lparr>se = \<lparr>se_width = 3, se_height = 1, center_x = 1, center_y = 0,
                            se_offsets = [(- 1, 0), (1, 0)]\<rparr>,
                      operation = Gradient, boundary = Zero\<rparr>
          \<lparr>img_width = 3, img_height = 1, img_pixels = [False, True, False]\<rparr>) 1 0
   \<noteq> (get (apply_image \<lparr>se = \<lparr>se_width = 3, se_height = 1, center_x = 1, center_y = 0,
                            se_offsets = [(- 1, 0), (1, 0)]\<rparr>,
                      operation = InnerBoundary, boundary = Zero\<rparr>
          \<lparr>img_width = 3, img_height = 1, img_pixels = [False, True, False]\<rparr>) 1 0
      \<or> get (apply_image \<lparr>se = \<lparr>se_width = 3, se_height = 1, center_x = 1, center_y = 0,
                            se_offsets = [(- 1, 0), (1, 0)]\<rparr>,
                      operation = OuterBoundary, boundary = Zero\<rparr>
          \<lparr>img_width = 3, img_height = 1, img_pixels = [False, True, False]\<rparr>) 1 0)"
  by code_simp

text \<open>
  Claim C2, amended. For every grid, every boundary mode and every structuring element
  whose offsets contain \<open>(0, 0)\<close>, at every coordinate inside the grid the Gradient
  result is the disjunction of the InnerBoundary result and the OuterBoundary result.
\<close>

theorem gradient_is_union_of_boundaries:
  assumes "(0, 0) \<in> set (se_offsets s)" and "in_image A x y"
  shows "get (apply_image \<lparr>se = s, operation = Gradient, boundary = b\<rparr> A) x y =
           (get (apply_image \<lparr>se = s, operation = InnerBoundary, boundary = b\<rparr> A) x y \<or>
            get (apply_image \<lparr>se = s, operation = OuterBoundary, boundary = b\<rparr> A) x y)"
proof -
  let ?m = "\<lparr>se = s, operation = Erosion, boundary = b\<rparr>"
  have g: "\<lparr>se = s, operation = Gradient, boundary = b\<rparr> = ?m\<lparr>operation := Gradient\<rparr>"
    and i: "\<lparr>se = s, operation = InnerBoundary, boundary = b\<rparr> = ?m\<lparr>operation := InnerBoundary\<rparr>"
    and o: "\<lparr>se = s, operation = OuterBoundary, boundary = b\<rparr> = ?m\<lparr>operation := OuterBoundary\<rparr>"
    by simp_all
  have c: "(0, 0) \<in> set (se_offsets (se ?m))" using assms(1) by simp
  have e: "checkErosion ?m A x y \<Longrightarrow> get A x y"
    using erosion_le_original [OF c assms(2)] .
  have d: "get A x y \<Longrightarrow> checkDilation ?m A x y"
    using original_le_dilation [OF c assms(2)] .
  have "checkPixel (?m\<lparr>operation := Gradient\<rparr>) A x y =
          (checkPixel (?m\<lparr>operation := InnerBoundary\<rparr>) A x y \<or>
           checkPixel (?m\<lparr>operation := OuterBoundary\<rparr>) A x y)"
    unfolding checkPixel_def Let_def check_loops_ignore_operation
    using e d by auto
  then show ?thesis
    unfolding g i o by (simp only: get_apply_image [OF assms(2)])
qed

theorem gradient_is_union_of_boundaries_witness:
  "(0, 0) \<in> set (se_offsets (createSquare 3)) \<and>
   in_image \<lparr>img_width = 3, img_height = 1, img_pixels = [False, True, False]\<rparr> 0 0 \<and>
   get (apply_image \<lparr>se = createSquare 3, operation = Gradient, boundary = Zero\<rparr>
          \<lparr>img_width = 3, img_height = 1, img_pixels = [False, True, False]\<rparr>) 0 0 \<and>
   get (apply_image \<lparr>se = createSquare 3, operation = OuterBoundary, boundary = Zero\<rparr>
          \<lparr>img_width = 3, img_height = 1, img_pixels = [False, True, False]\<rparr>) 0 0"
proof -
  have a: "(0, 0) \<in> set (se_offsets (createSquare 3))" by code_simp
  have b: "in_image \<lparr>img_width = 3, img_height = 1, img_pixels = [False, True, False]\<rparr> 0 0"
    by code_simp
  have c: "get (apply_image \<lparr>se = createSquare 3, operation = OuterBoundary, boundary = Zero\<rparr>
          \<lparr>img_width = 3, img_height = 1, img_pixels = [False, True, False]\<rparr>) 0 0"
    by code_simp
  show ?thesis
    using a b c gradient_is_union_of_boundaries [OF a b, of Zero]
    by simp
qed

text \<open>
  The centre is needed: for a structuring element without the offset \<open>(0, 0)\<close> the
  identity already fails on the 1 x 1 foreground grid under the Zero boundary mode.
\<close>

lemma gradient_union_needs_centre:
  assumes "(0, 0) \<notin> set (se_offsets s)"
  shows "get (apply_image \<lparr>se = s, operation = Gradient, boundary = Zero\<rparr> (BinaryImage_new 1 1 True)) 0 0 \<noteq>
           (get (apply_image \<lparr>se = s, operation = InnerBoundary, boundary = Zero\<rparr> (BinaryImage_new 1 1 True)) 0 0 \<or>
            get (apply_image \<lparr>se = s, operation = OuterBoundary, boundary = Zero\<rparr> (BinaryImage_new 1 1 True)) 0 0)"
proof -
  let ?A = "BinaryImage_new 1 1 True"
  have i: "in_image ?A 0 0" by (simp add: in_image_def BinaryImage_new_def)
  have o: "get ?A 0 0" by (simp add: get_new i)
  have out: "\<not> getPixelWithBoundary \<lparr>se = s, operation = op, boundary = Zero\<rparr> ?A (0 + fst d) (0 + snd d)"
    if "d \<in> set (se_offsets s)" for d op
  proof -
    from that assms have "d \<noteq> (0, 0)" by auto
    then have "\<not> in_image ?A (fst d) (snd d)"
      by (auto simp: in_image_def BinaryImage_new_def prod_eq_iff)
    then show ?thesis
      by (auto simp: getPixelWithBoundary_def Let_def in_image_def)
  qed
  have e: "checkErosion \<lparr>se = s, operation = op, boundary = Zero\<rparr> ?A 0 0 = (se_offsets s = [])" for op
  proof (cases "se_offsets s")
    case Nil
    then show ?thesis by (simp add: checkErosion_def)
  next
    case (Cons d ds)
    then have "d \<in> set (se_offsets s)" by simp
    with out [OF this, of op] Cons show ?thesis
      by (auto simp: checkErosion_def erosion_loop_all simp del: erosion_loop.simps)
  qed
  have d: "\<not> checkDilation \<lparr>se = s, operation = op, boundary = Zero\<rparr> ?A 0 0" for op
    using out by (auto simp: checkDilation_def dilation_loop_ex)
  show ?thesis
    using o by (simp add: get_apply_image [OF i] checkPixel_def e d)
qed

lemma cpp_mod_nonneg: "0 \<le> a \<Longrightarrow> 0 < b \<Longrightarrow> cpp_mod a b = a mod b"
  by (cases "a = 0") (simp_all add: cpp_mod_def cpp_div_def minus_mult_div_eq_mod)

lemma cpp_mod_neg: "a < 0 \<Longrightarrow> 0 < b \<Longrightarrow> cpp_mod a b = - ((- a) mod b)"
proof -
  assume a: "a < 0" and b: "0 < b"
  then have "cpp_mod a b = a + b * ((- a) div b)"
    by (simp add: cpp_mod_def cpp_div_def)
  also have "\<dots> = - ((- a) - b * ((- a) div b))" by simp
  also have "\<dots> = - ((- a) mod b)" by (simp only: minus_mult_div_eq_mod)
  finally show ?thesis .
qed

lemma cpp_mod_wrap_range:
  assumes "0 < w"
  shows "0 \<le> cpp_mod (cpp_mod x w + w) w \<and> cpp_mod (cpp_mod x w + w) w < w"
proof -
  have "0 \<le> cpp_mod x w + w"
  proof (cases "0 \<le> x")
    case True
    then show ?thesis using assms by (simp add: cpp_mod_nonneg)
  next
    case False
    then have "cpp_mod x w = - ((- x) mod w)" using assms by (simp add: cpp_mod_neg)
    moreover have "(- x) mod w < w" using assms by simp
    ultimately show ?thesis by simp
  qed
  then have "cpp_mod (cpp_mod x w + w) w = (cpp_mod x w + w) mod w"
    using assms by (rule cpp_mod_nonneg)
  then show ?thesis using assms by simp
qed

lemma clamp_range: "0 < w \<Longrightarrow> 0 \<le> clamp x 0 (w - 1) \<and> clamp x 0 (w - 1) < w"
  by (simp add: clamp_def)

lemma all_foreground_iff:
  assumes "wf_image img"
  shows "all_foreground img \<longleftrightarrow> (\<forall>x y. in_image img x y \<longrightarrow> get img x y)"
proof
  assume a: "all_foreground img"
  show "\<forall>x y. in_image img x y \<longrightarrow> get img x y"
  proof (intro allI impI)
    fix x y assume i: "in_image img x y"
    then have "nat (y * img_width img + x) < length (img_pixels img)"
      using assms index_less [of x "img_width img" y "img_height img"]
      by (simp add: wf_image_def in_image_def nat_less_iff)
    with a have "img_pixels img ! nat (y * img_width img + x)"
      by (simp add: all_foreground_def list_all_length)
    with i show "get img x y" by (simp add: get_inside)
  qed
next
  assume g: "\<forall>x y. in_image img x y \<longrightarrow> get img x y"
  have "img_pixels img ! i" if "i < length (img_pixels img)" for i
  proof -
    let ?w = "img_width img" and ?h = "img_height img"
    from that assms have lt: "int i < ?w * ?h" by (simp add: wf_image_def nat_less_iff)
    have w0: "0 < ?w"
    proof (rule ccontr)
      assume "\<not> 0 < ?w"
      with assms have "?w = 0" by (simp add: wf_image_def)
      with lt show False by simp
    qed
    let ?x = "int i mod ?w" and ?y = "int i div ?w"
    have x: "0 \<le> ?x" "?x < ?w" using w0 by simp_all
    have y0: "0 \<le> ?y" using w0 by (simp add: pos_imp_zdiv_nonneg_iff)
    have dm: "?y * ?w + ?x = int i" by simp
    have "?y < ?h"
    proof (rule ccontr)
      assume "\<not> ?y < ?h"
      then have "?h * ?w \<le> ?y * ?w" using w0 by (intro mult_right_mono) simp_all
      also have "\<dots> \<le> ?y * ?w + ?x" using x(1) by (simp only: le_add_same_cancel1)
      also have "\<dots> = int i" by (rule dm)
      finally show False using lt by (simp add: mult.commute)
    qed
    with x y0 have ii: "in_image img ?x ?y" by (simp add: in_image_def)
    with g have "get img ?x ?y" by blast
    then have "img_pixels img ! nat (?y * ?w + ?x)" using ii by (simp add: get_inside)
    then show ?thesis by (simp only: dm nat_int)
  qed
  then show "all_foreground img" by (simp add: all_foreground_def list_all_length)
qed

lemma probe_all_foreground:
  assumes "wf_image A" "all_foreground A" "0 < img_width A" "0 < img_height A"
    and "boundary m = Extend \<or> boundary m = Wrap"
  shows "getPixelWithBoundary m A x y"
proof -
  from assms(1,2) have g: "\<And>x y. in_image A x y \<Longrightarrow> get A x y"
    by (simp add: all_foreground_iff)
  show ?thesis
  proof (cases "in_image A x y")
    case True
    then show ?thesis by (simp add: getPixelWithBoundary_inside g)
  next
    case False
    have e: "in_image A (clamp x 0 (img_width A - 1)) (clamp y 0 (img_height A - 1))"
      using clamp_range [OF assms(3)] clamp_range [OF assms(4)] by (simp add: in_image_def)
    have w: "in_image A (cpp_mod (cpp_mod x (img_width A) + img_width A) (img_width A))
                        (cpp_mod (cpp_mod y (img_height A) + img_height A) (img_height A))"
      using cpp_mod_wrap_range [OF assms(3)] cpp_mod_wrap_range [OF assms(4)]
      by (simp add: in_image_def)
    from assms(5) False g [OF e] g [OF w] show ?thesis
      by (auto simp: getPixelWithBoundary_def Let_def in_image_def)
  qed
qed

text \<open>
  Claim C5 says that dilating an all-foreground grid gives an all-foreground grid for every
  structuring element. The OR over an empty offset list is false, so a structuring element
  without offsets turns the all-foreground 1 x 1 grid into background, under Extend and
  under Wrap.
\<close>

theorem dilation_all_foreground_counterexample:
  "wf_image (BinaryImage_new 1 1 True) \<and> all_foreground (BinaryImage_new 1 1 True) \<and>
   \<not> all_foreground
       (apply_image \<lparr>se = \<lparr>se_width = 0, se_height = 0, center_x = 0, center_y = 0, se_offsets = []\<rparr>,
                     operation = Dilation, boundary = Extend\<rparr> (BinaryImage_new 1 1 True)) \<and>
   \<not> all_foreground
       (apply_image \<lparr>se = \<lparr>se_width = 0, se_height = 0, center_x = 0, center_y = 0, se_offsets = []\<rparr>,
                     operation = Dilation, boundary = Wrap\<rparr> (BinaryImage_new 1 1 True))"
  by code_simp

text \<open>
  Claim C5, amended. For every all-foreground grid, under the Extend and under the Wrap
  boundary mode: Erosion yields an all-foreground grid of the same dimensions for every
  structuring element, and Dilation does for every structuring element with at least one
  offset.
\<close>

theorem erosion_dilation_all_foreground:
  assumes "wf_image A" and "all_foreground A"
    and "b = Extend \<or> b = Wrap"
    and "op = Erosion \<or> (op = Dilation \<and> se_offsets s \<noteq> [])"
  shows "all_foreground (apply_image \<lparr>se = s, operation = op, boundary = b\<rparr> A) \<and>
         img_width (apply_image \<lparr>se = s, operation = op, boundary = b\<rparr> A) = img_width A \<and>
         img_height (apply_image \<lparr>se = s, operation = op, boundary = b\<rparr> A) = img_height A"
proof -
  let ?m = "\<lparr>se = s, operation = op, boundary = b\<rparr>"
  from assms(1) have d: "0 \<le> img_width A" "0 \<le> img_height A" by (simp_all add: wf_image_def)
  note p = apply_image_props [OF d, of ?m]
  have "get (apply_image ?m A) x y" if i: "in_image (apply_image ?m A) x y" for x y
  proof -
    from i p have ia: "in_image A x y" by (simp add: in_image_def)
    then have pos: "0 < img_width A" "0 < img_height A" by (auto simp: in_image_def)
    have bm: "boundary ?m = Extend \<or> boundary ?m = Wrap" using assms(3) by simp
    have pr: "\<And>x y. getPixelWithBoundary ?m A x y"
      using probe_all_foreground [OF assms(1,2) pos bm] .
    have er: "checkErosion ?m A x y"
      by (simp add: checkErosion_def erosion_loop_all pr)
    have di: "checkDilation ?m A x y" if "se_offsets s \<noteq> []"
    proof -
      from that obtain d0 where "d0 \<in> set (se_offsets s)" by (cases "se_offsets s") auto
      then have "\<exists>d \<in> set (se_offsets s). getPixelWithBoundary ?m A (x + fst d) (y + snd d)"
        using pr by blast
      then show ?thesis by (simp add: checkDilation_def dilation_loop_ex)
    qed
    have "checkPixel ?m A x y"
      using assms(4) er di by (auto simp: checkPixel_def)
    with ia show ?thesis by (simp add: get_apply_image)
  qed
  moreover have "wf_image (apply_image ?m A)" using p by blast
  ultimately have "all_foreground (apply_image ?m A)" by (simp add: all_foreground_iff)
  with p show ?thesis by blast
qed

theorem erosion_dilation_all_foreground_witness:
  "wf_image (BinaryImage_new 2 2 True) \<and> all_foreground (BinaryImage_new 2 2 True) \<and>
   se_offsets (createCross 3) \<noteq> [] \<and>
   all_foreground (apply_image \<lparr>se = createCross 3, operation = Dilation, boundary = Wrap\<rparr>
                     (BinaryImage_new 2 2 True)) \<and>
   all_foreground (apply_image \<lparr>se = createCross 3, operation = Erosion, boundary = Extend\<rparr>
                     (BinaryImage_new 2 2 True))"
proof -
  have w: "wf_image (BinaryImage_new 2 2 True)" by code_simp
  have a: "all_foreground (BinaryImage_new 2 2 True)" by code_simp
  have n: "se_offsets (createCross 3) \<noteq> []" by code_simp
  show ?thesis
    using w a n
      erosion_dilation_all_foreground [OF w a, of Wrap Dilation "createCross 3"]
      erosion_dilation_all_foreground [OF w a, of Extend Erosion "createCross 3"]
    by simp
qed

section \<open>Flood fill: sessions\<close>

subsection \<open>What a step leaves alone\<close>

lemma visit_neighbor_frame:
  "width (visit_neighbor x y d e) = width e \<and> height (visit_neighbor x y d e) = height e \<and>
   source (visit_neighbor x y d e) = source e \<and>
   target_value (visit_neighbor x y d e) = target_value e \<and>
   safety_mask (visit_neighbor x y d e) = safety_mask e \<and>
   offsets (visit_neighbor x y d e) = offsets e \<and>
   disk_offsets (visit_neighbor x y d e) = disk_offsets e \<and>
   safety_radius (visit_neighbor x y d e) = safety_radius e \<and>
   algorithm (visit_neighbor x y d e) = algorithm e \<and>
   connectivity (visit_neighbor x y d e) = connectivity e \<and>
   initialized (visit_neighbor x y d e) = initialized e \<and>
   filled_count (visit_neighbor x y d e) = filled_count e \<and>
   result (visit_neighbor x y d e) = result e"
  by (simp add: visit_neighbor_def Let_def)

lemma neighbors_loop_frame:
  "width (neighbors_loop x y ds e) = width e \<and> height (neighbors_loop x y ds e) = height e \<and>
   source (neighbors_loop x y ds e) = source e \<and>
   target_value (neighbors_loop x y ds e) = target_value e \<and>
   safety_mask (neighbors_loop x y ds e) = safety_mask e \<and>
   offsets (neighbors_loop x y ds e) = offsets e \<and>
   disk_offsets (neighbors_loop x y ds e) = disk_offsets e \<and>
   safety_radius (neighbors_loop x y ds e) = safety_radius e \<and>
   algorithm (neighbors_loop x y ds e) = algorithm e \<and>
   connectivity (neighbors_loop x y ds e) = connectivity e \<and>
   initialized (neighbors_loop x y ds e) = initialized e \<and>
   filled_count (neighbors_loop x y ds e) = filled_count e \<and>
   result (neighbors_loop x y ds e) = result e"
  by (induction ds arbitrary: e) (simp_all add: visit_neighbor_frame)

lemma step_frame:
  "width (snd (step e)) = width e \<and> height (snd (step e)) = height e \<and>
   source (snd (step e)) = source e \<and>
   target_value (snd (step e)) = target_value e \<and>
   safety_mask (snd (step e)) = safety_mask e \<and>
   offsets (snd (step e)) = offsets e \<and>
   disk_offsets (snd (step e)) = disk_offsets e \<and>
   safety_radius (snd (step e)) = safety_radius e \<and>
   algorithm (snd (step e)) = algorithm e \<and>
   connectivity (snd (step e)) = connectivity e \<and>
   initialized (snd (step e)) = initialized e"
  by (simp add: step_def Let_def neighbors_loop_frame)

lemma steps_frame:
  "width (steps n e) = width e \<and> height (steps n e) = height e \<and>
   source (steps n e) = source e \<and>
   target_value (steps n e) = target_value e \<and>
   safety_mask (steps n e) = safety_mask e \<and>
   offsets (steps n e) = offsets e \<and>
   disk_offsets (steps n e) = disk_offsets e \<and>
   safety_radius (steps n e) = safety_radius e \<and>
   algorithm (steps n e) = algorithm e \<and>
   connectivity (steps n e) = connectivity e \<and>
   initialized (steps n e) = initialized e"
  by (induction n arbitrary: e) (simp_all add: step_frame)

lemma isValid_steps [simp]: "isValid (steps n e) x y = isValid e x y"
  by (simp add: isValid_def steps_frame)

lemma step_idle: "\<not> initialized e \<or> frontier e = [] \<Longrightarrow> step e = (False, e)"
  by (auto simp: step_def)

lemma steps_idle: "\<not> initialized e \<or> frontier e = [] \<Longrightarrow> steps n e = e"
  by (induction n) (simp_all add: step_idle)

lemma steps_add: "steps (n + k) e = steps k (steps n e)"
  by (induction n arbitrary: e) simp_all

subsection \<open>What initialize sets up\<close>

lemma precomputeSafetyMask_frame:
  "width (precomputeSafetyMask e) = width e \<and> height (precomputeSafetyMask e) = height e \<and>
   source (precomputeSafetyMask e) = source e \<and>
   target_value (precomputeSafetyMask e) = target_value e \<and>
   offsets (precomputeSafetyMask e) = offsets e \<and>
   disk_offsets (precomputeSafetyMask e) = disk_offsets e \<and>
   safety_radius (precomputeSafetyMask e) = safety_radius e \<and>
   algorithm (precomputeSafetyMask e) = algorithm e \<and>
   connectivity (precomputeSafetyMask e) = connectivity e \<and>
   state (precomputeSafetyMask e) = state e \<and>
   frontier (precomputeSafetyMask e) = frontier e \<and>
   result (precomputeSafetyMask e) = result e \<and>
   filled_count (precomputeSafetyMask e) = filled_count e \<and>
   unsafe_count (precomputeSafetyMask e) = unsafe_count e"
  by (simp add: precomputeSafetyMask_def Let_def)

lemma initialize_frame:
  "width (initialize e img sx sy) = img_width img \<and>
   height (initialize e img sx sy) = img_height img \<and>
   source (initialize e img sx sy) = img \<and>
   offsets (initialize e img sx sy) = offsets e \<and>
   disk_offsets (initialize e img sx sy) = disk_offsets e \<and>
   safety_radius (initialize e img sx sy) = safety_radius e \<and>
   algorithm (initialize e img sx sy) = algorithm e \<and>
   connectivity (initialize e img sx sy) = connectivity e \<and>
   initialized (initialize e img sx sy) = in_image img sx sy \<and>
   filled_count (initialize e img sx sy) = 0 \<and>
   result (initialize e img sx sy) = BinaryImage_new (img_width img) (img_height img) False"
  by (simp add: initialize_def Let_def isValid_def in_image_def precomputeSafetyMask_frame)

lemma initialize_target:
  "in_image img sx sy \<Longrightarrow> target_value (initialize e img sx sy) = get img sx sy"
  by (simp add: initialize_def Let_def isValid_def in_image_def precomputeSafetyMask_frame)

lemma isValid_initialize [simp]: "isValid (initialize e img sx sy) x y = in_image img x y"
  by (simp add: isValid_def in_image_def initialize_frame)

lemma initialize_out_of_bounds:
  "\<not> in_image img sx sy \<Longrightarrow>
     initialize e img sx sy =
       e\<lparr>width := img_width img, height := img_height img, source := img,
         result := BinaryImage_new (img_width img) (img_height img) False,
         state := replicate (nat (img_height img)) (replicate (nat (img_width img)) Unvisited),
         frontier := [], filled_count := 0, unsafe_count := 0,
         current_pixel := (- 1, - 1), initialized := False\<rparr>"
  by (simp add: initialize_def Let_def isValid_def in_image_def)

text \<open>
  Claim C9. In a fill session that was initialized (the seed inside the grid) with a safety
  radius \<open>\<le> 0\<close>, after any number of steps, \<open>checkCircleFits cx cy\<close> is true exactly
  when \<open>(cx, cy)\<close> is inside the grid and the source pixel there equals the captured
  target value, which is the source pixel at the seed.
\<close>

theorem checkCircleFits_no_radius:
  assumes "safety_radius e \<le> 0" and "in_image img sx sy"
  shows "initialized (steps n (initialize e img sx sy)) \<and>
         target_value (steps n (initialize e img sx sy)) = get img sx sy \<and>
         checkCircleFits (steps n (initialize e img sx sy)) cx cy =
           (in_image img cx cy \<and> get img cx cy = get img sx sy)"
  using assms
  by (simp add: checkCircleFits_def steps_frame initialize_frame initialize_target)

theorem checkCircleFits_no_radius_witness:
  "safety_radius (FloodFill_new Four BFS 0) \<le> 0 \<and>
   in_image (BinaryImage_new 3 2 True) 1 1 \<and>
   checkCircleFits (steps 2 (initialize (FloodFill_new Four BFS 0) (BinaryImage_new 3 2 True) 1 1)) 2 0 \<and>
   \<not> checkCircleFits (steps 2 (initialize (FloodFill_new Four BFS 0) (BinaryImage_new 3 2 True) 1 1)) 3 0"
proof -
  have r: "safety_radius (FloodFill_new Four BFS 0) \<le> 0" by code_simp
  have i: "in_image (BinaryImage_new 3 2 True) 1 1" by code_simp
  have a: "in_image (BinaryImage_new 3 2 True) 2 0 \<and> get (BinaryImage_new 3 2 True) 2 0 = get (BinaryImage_new 3 2 True) 1 1"
    by code_simp
  have b: "\<not> in_image (BinaryImage_new 3 2 True) 3 0" by code_simp
  show ?thesis
    using r i a b
      checkCircleFits_no_radius [OF r i, of 2 2 0]
      checkCircleFits_no_radius [OF r i, of 2 3 0]
    by simp
qed

text \<open>
  Claim C10. \<open>getState x y\<close> is \<open>Unvisited\<close> at every coordinate outside the grid,
  whatever the engine's state: for any engine value, for a freshly constructed engine
  (whose grid is empty, so every coordinate is outside), and at any point of a session,
  also one whose \<open>initialize\<close> failed.
\<close>

theorem getState_out_of_bounds:
  "(\<not> isValid e x y \<longrightarrow> getState e x y = Unvisited) \<and>
   getState (FloodFill_new c a r) x y = Unvisited \<and>
   (\<not> in_image img x y \<longrightarrow> getState (steps n (initialize e img sx sy)) x y = Unvisited)"
proof -
  have "\<not> isValid (FloodFill_new c a r) x y"
    by (simp add: isValid_def FloodFill_new_def updateOffsets_def updateDiskOffsets_def Let_def)
  then show ?thesis by (simp add: getState_def)
qed

theorem getState_out_of_bounds_witness:
  "\<not> isValid (initialize (FloodFill_new Four BFS 0) (BinaryImage_new 2 2 True) 0 0) 2 0 \<and>
   getState (initialize (FloodFill_new Four BFS 0) (BinaryImage_new 2 2 True) 0 0) 2 0 = Unvisited \<and>
   \<not> in_image (BinaryImage_new 2 2 True) 0 (- 1) \<and>
   getState (steps 1 (initialize (FloodFill_new Four BFS 0) (BinaryImage_new 2 2 True) 5 5)) 0 (- 1) = Unvisited"
proof -
  have a: "\<not> isValid (initialize (FloodFill_new Four BFS 0) (BinaryImage_new 2 2 True) 0 0) 2 0"
    by code_simp
  have b: "\<not> in_image (BinaryImage_new 2 2 True) 0 (- 1)" by code_simp
  show ?thesis
    using a b
      getState_out_of_bounds [of "initialize (FloodFill_new Four BFS 0) (BinaryImage_new 2 2 True) 0 0" 2 0
         Four BFS 0 "BinaryImage_new 2 2 True" 1 0 0]
      getState_out_of_bounds [of "FloodFill_new Four BFS 0" 0 "- 1"
         Four BFS 0 "BinaryImage_new 2 2 True" 1 5 5]
    by blast
qed

text \<open>
  Claim C6. After \<open>initialize\<close> on a grid (width and height not negative) with a seed
  outside the grid the engine is not initialized, and every later \<open>step\<close> returns false
  and leaves the whole engine as it was (so the result grid, the state grid, the counters
  and the frontier are unchanged).
\<close>

theorem initialize_out_of_bounds_inert:
  assumes "0 \<le> img_width img" and "0 \<le> img_height img" and "\<not> in_image img sx sy"
  shows "\<not> initialized (initialize e img sx sy) \<and>
         step (initialize e img sx sy) = (False, initialize e img sx sy) \<and>
         steps n (initialize e img sx sy) = initialize e img sx sy \<and>
         step (steps n (initialize e img sx sy)) = (False, initialize e img sx sy) \<and>
         \<not> isComplete (steps n (initialize e img sx sy))"
proof -
  have ni: "\<not> initialized (initialize e img sx sy)"
    using assms(3) by (simp add: initialize_frame)
  then show ?thesis
    by (simp add: step_idle steps_idle isComplete_def)
qed

theorem initialize_out_of_bounds_inert_witness:
  "0 \<le> img_width (BinaryImage_new 2 2 True) \<and> 0 \<le> img_height (BinaryImage_new 2 2 True) \<and>
   \<not> in_image (BinaryImage_new 2 2 True) 2 0 \<and>
   \<not> initialized (initialize (FloodFill_new Four BFS 0) (BinaryImage_new 2 2 True) 2 0) \<and>
   step (steps 3 (initialize (FloodFill_new Four BFS 0) (BinaryImage_new 2 2 True) 2 0)) =
     (False, initialize (FloodFill_new Four BFS 0) (BinaryImage_new 2 2 True) 2 0)"
proof -
  have w: "0 \<le> img_width (BinaryImage_new 2 2 True)" by code_simp
  have h: "0 \<le> img_height (BinaryImage_new 2 2 True)" by code_simp
  have a: "\<not> in_image (BinaryImage_new 2 2 True) 2 0" by code_simp
  show ?thesis
    using w h a initialize_out_of_bounds_inert [OF w h a, of "FloodFill_new Four BFS 0" 3]
    by simp
qed

section \<open>Flood fill: the traversal\<close>

subsection \<open>The state grid\<close>

lemma grid_ok_row:
  "grid_ok e \<Longrightarrow> isValid e x y \<Longrightarrow>
     nat y < length (state e) \<and> nat x < length (state e ! nat y)"
  by (auto simp: grid_ok_def isValid_def nat_less_iff)

lemma grid_ok_update:
  assumes "grid_ok e" "width e' = width e" "height e' = height e"
    and "state e' = state_set (state e) x y v"
  shows "grid_ok e'"
proof -
  have "length row = nat (width e)" if "row \<in> set (state_set (state e) x y v)" for row
  proof -
    have "set ((state e)[nat y := (state e ! nat y)[nat x := v]])
            \<subseteq> insert ((state e ! nat y)[nat x := v]) (set (state e))"
      by (rule set_update_subset_insert)
    with that have "row \<in> insert ((state e ! nat y)[nat x := v]) (set (state e))"
      by (auto simp: state_set_def)
    then show ?thesis
    proof
      assume "row = (state e ! nat y)[nat x := v]"
      show ?thesis
      proof (cases "nat y < length (state e)")
        case True
        then have "state e ! nat y \<in> set (state e)" by simp
        with assms(1) \<open>row = _\<close> show ?thesis by (simp add: grid_ok_def)
      next
        case False
        then have "(state e)[nat y := (state e ! nat y)[nat x := v]] = state e"
          by (simp add: list_update_beyond)
        with that have "row \<in> set (state e)" by (simp add: state_set_def)
        with assms(1) show ?thesis by (simp add: grid_ok_def)
      qed
    next
      assume "row \<in> set (state e)"
      with assms(1) show ?thesis by (simp add: grid_ok_def)
    qed
  qed
  with assms show ?thesis by (simp add: grid_ok_def state_set_def)
qed

lemma getState_update:
  assumes "grid_ok e" "isValid e x y" "width e' = width e" "height e' = height e"
    and "state e' = state_set (state e) x y v"
  shows "getState e' x' y' = (if x' = x \<and> y' = y then v else getState e x' y')"
proof (cases "isValid e x' y'")
  case False
  with assms show ?thesis by (auto simp: getState_def isValid_def)
next
  case True
  from grid_ok_row [OF assms(1,2)] have r: "nat y < length (state e)" "nat x < length (state e ! nat y)"
    by simp_all
  from grid_ok_row [OF assms(1) True] have r': "nat y' < length (state e)" "nat x' < length (state e ! nat y')"
    by simp_all
  have v: "isValid e' x' y'" using True assms(3,4) by (simp add: isValid_def)
  have nx: "nat x' = nat x \<longleftrightarrow> x' = x" and ny: "nat y' = nat y \<longleftrightarrow> y' = y"
    using True assms(2) by (auto simp: isValid_def)
  have "getState e' x' y' = state_set (state e) x y v ! nat y' ! nat x'"
    using v assms(5) by (simp add: getState_def state_at_def)
  also have "\<dots> = (if x' = x \<and> y' = y then v else state e ! nat y' ! nat x')"
    using r r' nx ny by (auto simp: state_set_def nth_list_update)
  finally show ?thesis using True by (simp add: getState_def state_at_def)
qed

lemma getState_Unvisited_outside: "\<not> isValid e x y \<Longrightarrow> getState e x y = Unvisited"
  by (simp add: getState_def)

lemma getState_valid: "getState e x y \<noteq> Unvisited \<Longrightarrow> isValid e x y"
  by (auto simp: getState_def split: if_splits)

lemma getState_cong:
  "state e' = state e \<Longrightarrow> width e' = width e \<Longrightarrow> height e' = height e \<Longrightarrow>
     getState e' x y = getState e x y"
  by (simp add: getState_def isValid_def)

lemma grid_ok_cong:
  "state e' = state e \<Longrightarrow> width e' = width e \<Longrightarrow> height e' = height e \<Longrightarrow>
     grid_ok e' = grid_ok e"
  by (simp add: grid_ok_def)

subsection \<open>One neighbour\<close>

lemma visit_neighbor_skip:
  "\<not> isValid e (x + fst d) (y + snd d) \<or> getState e (x + fst d) (y + snd d) \<noteq> Unvisited \<Longrightarrow>
     visit_neighbor x y d e = e"
  by (auto simp: visit_neighbor_def Let_def getState_def)

lemma visit_neighbor_mark:
  assumes "grid_ok e" "isValid e (x + fst d) (y + snd d)"
    and "getState e (x + fst d) (y + snd d) = Unvisited"
  shows "grid_ok (visit_neighbor x y d e) \<and>
     (\<forall>x' y'. getState (visit_neighbor x y d e) x' y' =
        (if x' = x + fst d \<and> y' = y + snd d then classify e (x + fst d) (y + snd d)
         else getState e x' y')) \<and>
     frontier (visit_neighbor x y d e) =
       frontier e @ (if classify e (x + fst d) (y + snd d) = InQueue then [(x + fst d, y + snd d)] else []) \<and>
     unsafe_count (visit_neighbor x y d e) =
       unsafe_count e + (if classify e (x + fst d) (y + snd d) = Unsafe then 1 else 0)"
proof -
  let ?e' = "visit_neighbor x y d e"
  let ?nx = "x + fst d" and ?ny = "y + snd d"
  have u: "state_at (state e) ?nx ?ny = Unvisited"
    using assms(2,3) by (simp add: getState_def)
  have st: "state ?e' = state_set (state e) ?nx ?ny (classify e ?nx ?ny)"
    using assms(2) u by (simp add: visit_neighbor_def Let_def classify_def)
  have wh: "width ?e' = width e" "height ?e' = height e"
    by (simp_all add: visit_neighbor_frame)
  have fr: "frontier ?e' = frontier e @ (if classify e ?nx ?ny = InQueue then [(?nx, ?ny)] else [])"
    using assms(2) u by (simp add: visit_neighbor_def Let_def classify_def)
  have uc: "unsafe_count ?e' = unsafe_count e + (if classify e ?nx ?ny = Unsafe then 1 else 0)"
    using assms(2) u by (simp add: visit_neighbor_def Let_def classify_def)
  have g: "grid_ok ?e'" using assms(1) wh st by (rule grid_ok_update)
  have s: "\<forall>x' y'. getState ?e' x' y' =
        (if x' = ?nx \<and> y' = ?ny then classify e ?nx ?ny else getState e x' y')"
    using getState_update [OF assms(1,2) wh st] by blast
  from g s fr uc show ?thesis by blast
qed

subsection \<open>The setup of a session\<close>

lemma same_setup_refl [simp]: "same_setup e e"
  by (simp add: same_setup_def)

lemma same_setup_trans: "same_setup a b \<Longrightarrow> same_setup b c \<Longrightarrow> same_setup a c"
  by (simp add: same_setup_def)

lemma same_setup_visit [simp]: "same_setup e (visit_neighbor x y d e)"
  by (simp add: same_setup_def visit_neighbor_frame)

lemma same_setup_loop [simp]: "same_setup e (neighbors_loop x y ds e)"
  by (simp add: same_setup_def neighbors_loop_frame)

lemma same_setup_step [simp]: "same_setup e (snd (step e))"
  by (simp add: same_setup_def step_frame)

lemma same_setup_steps [simp]: "same_setup e (steps n e)"
  by (simp add: same_setup_def steps_frame)

lemma same_setup_isValid: "same_setup e e' \<Longrightarrow> isValid e' x y = isValid e x y"
  by (simp add: same_setup_def isValid_def)

lemma same_setup_classify: "same_setup e e' \<Longrightarrow> classify e' x y = classify e x y"
  by (simp add: same_setup_def classify_def)

lemma reach_mono_setup:
  assumes "same_setup e e'" "p \<in> reach e seed"
  shows "p \<in> reach e' seed"
  using assms(2)
proof (induction rule: reach.induct)
  case reach_seed
  then show ?case
    using assms(1) by (intro reach.reach_seed) (simp_all add: same_setup_isValid same_setup_classify)
next
  case (reach_step q d)
  then show ?case
    using assms(1)
    by (intro reach.reach_step)
       (simp_all add: same_setup_isValid same_setup_classify, simp add: same_setup_def)
qed

lemma same_setup_sym: "same_setup e e' \<Longrightarrow> same_setup e' e"
  by (simp add: same_setup_def)

lemma same_setup_reach: "same_setup e e' \<Longrightarrow> reach e' seed = reach e seed"
  using reach_mono_setup same_setup_sym by blast

lemma same_setup_touched: "same_setup e e' \<Longrightarrow> touched e' seed p = touched e seed p"
  by (simp add: touched_def same_setup_reach) (simp add: same_setup_def)

lemma same_setup_final_state: "same_setup e e' \<Longrightarrow> final_state e' seed x y = final_state e seed x y"
  by (simp add: final_state_def same_setup_touched same_setup_classify same_setup_isValid)

lemma classify_not_Unvisited [simp]:
  "classify e x y \<noteq> Unvisited" "Unvisited \<noteq> classify e x y"
  by (simp_all add: classify_def)

lemma classify_not_Processed [simp]:
  "classify e x y \<noteq> Processed" "Processed \<noteq> classify e x y"
  by (simp_all add: classify_def)

lemma touched_reach:
  "touched e seed (x, y) \<Longrightarrow> isValid e x y \<Longrightarrow> classify e x y = InQueue \<Longrightarrow> (x, y) \<in> reach e seed"
  unfolding touched_def
proof (elim disjE bexE)
  assume "(x, y) = seed" "isValid e x y" "classify e x y = InQueue"
  then show ?thesis using reach.reach_seed [of e seed] by auto
next
  fix q d
  assume "q \<in> reach e seed" "d \<in> set (offsets e)" "(x, y) = (fst q + fst d, snd q + snd d)"
    "isValid e x y" "classify e x y = InQueue"
  then show ?thesis using reach.reach_step [of q e seed d] by auto
qed

subsection \<open>Counting pixels by state\<close>

lemma finite_valid: "finite {p. isValid e (fst p) (snd p)}"
proof -
  have "{p. isValid e (fst p) (snd p)} \<subseteq> {0..<width e} \<times> {0..<height e}"
    by (auto simp: isValid_def)
  then show ?thesis by (rule finite_subset) simp
qed

lemma finite_in_state: "s \<noteq> Unvisited \<Longrightarrow> finite {p. getState e (fst p) (snd p) = s}"
proof -
  assume "s \<noteq> Unvisited"
  then have "{p. getState e (fst p) (snd p) = s} \<subseteq> {p. isValid e (fst p) (snd p)}"
    using getState_valid by fastforce
  then show ?thesis using finite_valid by (rule finite_subset)
qed

text \<open>The effect on the count of one pixel going from state \<open>a\<close> to state \<open>b\<close>.\<close>

lemma in_state_after_change:
  assumes "\<forall>x' y'. getState e' x' y' = (if x' = x \<and> y' = y then b else getState e x' y')"
  shows "{p. getState e' (fst p) (snd p) = s} =
           (if b = s then insert (x, y) {p. getState e (fst p) (snd p) = s}
            else {p. getState e (fst p) (snd p) = s} - {(x, y)})"
  using assms by (auto simp: prod_eq_iff)

lemma card_in_state_after_change:
  assumes "\<forall>x' y'. getState e' x' y' = (if x' = x \<and> y' = y then b else getState e x' y')"
    and "getState e x y = a" "a \<noteq> b" "s \<noteq> Unvisited"
  shows "card {p. getState e' (fst p) (snd p) = s} =
           (if b = s then card {p. getState e (fst p) (snd p) = s} + 1
            else if a = s then card {p. getState e (fst p) (snd p) = s} - 1
            else card {p. getState e (fst p) (snd p) = s})"
proof -
  note f = finite_in_state [OF assms(4), of e]
  show ?thesis
  proof (cases "b = s")
    case True
    with assms(2,3) have "(x, y) \<notin> {p. getState e (fst p) (snd p) = s}" by auto
    with f True show ?thesis by (simp add: in_state_after_change [OF assms(1)])
  next
    case False
    show ?thesis
    proof (cases "a = s")
      case True
      with assms(2) have "(x, y) \<in> {p. getState e (fst p) (snd p) = s}" by simp
      with f False True show ?thesis by (simp add: in_state_after_change [OF assms(1)])
    next
      case na: False
      with assms(2) have "(x, y) \<notin> {p. getState e (fst p) (snd p) = s}" by auto
      with False na show ?thesis by (simp add: in_state_after_change [OF assms(1)])
    qed
  qed
qed

subsection \<open>One neighbour and the invariants\<close>

lemma visit_neighbor_transition:
  assumes "grid_ok e"
  shows "getState (visit_neighbor x y d e) x' y' = getState e x' y' \<or>
         (getState e x' y' = Unvisited \<and> isValid e x' y' \<and>
          x' = x + fst d \<and> y' = y + snd d \<and>
          getState (visit_neighbor x y d e) x' y' = classify e x' y')"
proof (cases "isValid e (x + fst d) (y + snd d) \<and> getState e (x + fst d) (y + snd d) = Unvisited")
  case False
  then show ?thesis by (simp add: visit_neighbor_skip)
next
  case True
  with visit_neighbor_mark [OF assms, of x d y] show ?thesis by auto
qed

lemma visit_neighbor_grid_ok: "grid_ok e \<Longrightarrow> grid_ok (visit_neighbor x y d e)"
  by (cases "isValid e (x + fst d) (y + snd d) \<and> getState e (x + fst d) (y + snd d) = Unvisited")
     (auto simp: visit_neighbor_skip visit_neighbor_mark)

lemma visit_neighbor_visited:
  assumes "grid_ok e" "isValid e (x + fst d) (y + snd d)"
  shows "getState (visit_neighbor x y d e) (x + fst d) (y + snd d) \<noteq> Unvisited"
proof (cases "getState e (x + fst d) (y + snd d) = Unvisited")
  case False
  then show ?thesis by (simp add: visit_neighbor_skip)
next
  case True
  with visit_neighbor_mark [OF assms(1,2)] show ?thesis by simp
qed

lemma visit_neighbor_frontier_ok:
  assumes "frontier_ok e"
  shows "frontier_ok (visit_neighbor x y d e)"
proof (cases "isValid e (x + fst d) (y + snd d) \<and> getState e (x + fst d) (y + snd d) = Unvisited")
  case False
  with assms show ?thesis by (simp add: visit_neighbor_skip)
next
  case True
  let ?e' = "visit_neighbor x y d e"
  let ?nx = "x + fst d" and ?ny = "y + snd d"
  from assms have g: "grid_ok e" and di: "distinct (frontier e)"
    and fr: "\<And>p. p \<in> set (frontier e) \<longleftrightarrow> getState e (fst p) (snd p) = InQueue"
    and fc: "filled_count e = card {p. getState e (fst p) (snd p) = Processed}"
    unfolding frontier_ok_def by blast+
  from True have v: "isValid e ?nx ?ny" and u: "getState e ?nx ?ny = Unvisited" by simp_all
  have nu: "Unvisited \<noteq> classify e ?nx ?ny" by (simp add: classify_def)
  note m = visit_neighbor_mark [OF g v u]
  from m have g': "grid_ok ?e'" by blast
  from m have st: "\<forall>x' y'. getState ?e' x' y' =
      (if x' = ?nx \<and> y' = ?ny then classify e ?nx ?ny else getState e x' y')" by blast
  from m have f': "frontier ?e' =
      frontier e @ (if classify e ?nx ?ny = InQueue then [(?nx, ?ny)] else [])" by blast
  have notin: "(?nx, ?ny) \<notin> set (frontier e)" using fr [of "(?nx, ?ny)"] u by simp
  have d': "distinct (frontier ?e')" using di notin by (simp add: f')
  have fr': "p \<in> set (frontier ?e') \<longleftrightarrow> getState ?e' (fst p) (snd p) = InQueue" for p
    using fr [of p] u st by (cases p) (auto simp: f')
  have "card {p. getState ?e' (fst p) (snd p) = Processed} =
          card {p. getState e (fst p) (snd p) = Processed}"
    using card_in_state_after_change [OF st u nu, of Processed] by simp
  with fc have fc': "filled_count ?e' = card {p. getState ?e' (fst p) (snd p) = Processed}"
    by (simp add: visit_neighbor_frame)
  from g' d' fr' fc' show ?thesis by (simp add: frontier_ok_def)
qed

lemma visit_neighbor_marks_ok:
  assumes "grid_ok e" "marks_ok e seed" "(x, y) \<in> reach e seed" "d \<in> set (offsets e)"
  shows "marks_ok (visit_neighbor x y d e) seed"
proof (cases "isValid e (x + fst d) (y + snd d) \<and> getState e (x + fst d) (y + snd d) = Unvisited")
  case False
  with assms show ?thesis by (simp add: visit_neighbor_skip)
next
  case True
  let ?e' = "visit_neighbor x y d e"
  let ?nx = "x + fst d" and ?ny = "y + snd d"
  from True have v: "isValid e ?nx ?ny" and u: "getState e ?nx ?ny = Unvisited" by simp_all
  have nu: "Unvisited \<noteq> classify e ?nx ?ny" by (simp add: classify_def)
  note m = visit_neighbor_mark [OF assms(1) v u]
  from m have st: "\<forall>x' y'. getState ?e' x' y' =
      (if x' = ?nx \<and> y' = ?ny then classify e ?nx ?ny else getState e x' y')" by blast
  from m have uc': "unsafe_count ?e' =
      unsafe_count e + (if classify e ?nx ?ny = Unsafe then 1 else 0)" by blast
  have ss: "same_setup e ?e'" by simp
  from assms(2) have uc: "unsafe_count e = card {p. getState e (fst p) (snd p) = Unsafe}"
    and rs: "wf_image (result e)" "img_width (result e) = width e" "img_height (result e) = height e"
    and rg: "\<And>x y. get (result e) x y = (getState e x y = Processed)"
    and tc: "\<And>x y. getState e x y \<noteq> Unvisited \<Longrightarrow>
        touched e seed (x, y) \<and>
        (getState e x y = classify e x y \<or> (getState e x y = Processed \<and> classify e x y = InQueue))"
    and sd: "getState e (fst seed) (snd seed) \<noteq> Unvisited"
    unfolding marks_ok_def by blast+
  have c1: "unsafe_count ?e' = card {p. getState ?e' (fst p) (snd p) = Unsafe}"
    using card_in_state_after_change [OF st u nu, of Unsafe] uc uc' by simp
  have c2: "wf_image (result ?e')" "img_width (result ?e') = width ?e'"
    "img_height (result ?e') = height ?e'"
    using rs by (simp_all add: visit_neighbor_frame)
  have c3: "get (result ?e') x' y' = (getState ?e' x' y' = Processed)" for x' y'
    using rg [of x' y'] u st by (auto simp: visit_neighbor_frame)
  have "\<exists>q \<in> reach e seed. \<exists>d' \<in> set (offsets e). (?nx, ?ny) = (fst q + fst d', snd q + snd d')"
    using assms(3,4) by (intro bexI [of _ "(x, y)"] bexI [of _ d]) simp_all
  then have tn: "touched e seed (?nx, ?ny)"
    by (simp add: touched_def)
  have c4: "touched ?e' seed (x', y') \<and>
        (getState ?e' x' y' = classify ?e' x' y' \<or>
         (getState ?e' x' y' = Processed \<and> classify ?e' x' y' = InQueue))"
    if "getState ?e' x' y' \<noteq> Unvisited" for x' y'
  proof (cases "x' = ?nx \<and> y' = ?ny")
    case True
    then show ?thesis
      using tn st by (simp add: same_setup_touched [OF ss] same_setup_classify [OF ss])
  next
    case False
    then have "getState ?e' x' y' = getState e x' y'" using st by auto
    with that tc [of x' y'] show ?thesis
      by (simp add: same_setup_touched [OF ss] same_setup_classify [OF ss])
  qed
  have c5: "getState ?e' (fst seed) (snd seed) \<noteq> Unvisited"
    using sd st by auto
  from c1 c2 c3 c4 c5 show ?thesis unfolding marks_ok_def by blast
qed

subsection \<open>The neighbour loop\<close>

lemma neighbors_loop_grid_ok: "grid_ok e \<Longrightarrow> grid_ok (neighbors_loop x y ds e)"
  by (induction ds arbitrary: e) (simp_all add: visit_neighbor_grid_ok)

lemma neighbors_loop_frontier_ok: "frontier_ok e \<Longrightarrow> frontier_ok (neighbors_loop x y ds e)"
  by (induction ds arbitrary: e) (simp_all add: visit_neighbor_frontier_ok)

lemma neighbors_loop_marks_ok:
  assumes "grid_ok e" "marks_ok e seed" "(x, y) \<in> reach e seed" "set ds \<subseteq> set (offsets e)"
  shows "marks_ok (neighbors_loop x y ds e) seed"
  using assms
proof (induction ds arbitrary: e)
  case Nil
  then show ?case by simp
next
  case (Cons d ds)
  let ?e' = "visit_neighbor x y d e"
  have ss: "same_setup e ?e'" by simp
  have "grid_ok ?e'" using Cons.prems(1) by (rule visit_neighbor_grid_ok)
  moreover have "marks_ok ?e' seed"
    using Cons.prems by (intro visit_neighbor_marks_ok) simp_all
  moreover have "(x, y) \<in> reach ?e' seed"
    using Cons.prems(3) by (simp add: same_setup_reach [OF ss])
  moreover have "set ds \<subseteq> set (offsets ?e')"
    using Cons.prems(4) by (simp add: visit_neighbor_frame)
  ultimately show ?case using Cons.IH [of ?e'] by simp
qed

lemma neighbors_loop_transition:
  assumes "grid_ok e"
  shows "getState (neighbors_loop x y ds e) x' y' = getState e x' y' \<or>
         (getState e x' y' = Unvisited \<and> isValid e x' y' \<and>
          getState (neighbors_loop x y ds e) x' y' = classify e x' y')"
  using assms
proof (induction ds arbitrary: e)
  case Nil
  then show ?case by simp
next
  case (Cons d ds)
  let ?e' = "visit_neighbor x y d e"
  have ss: "same_setup e ?e'" by simp
  have g: "grid_ok ?e'" using Cons.prems by (rule visit_neighbor_grid_ok)
  note a = visit_neighbor_transition [OF Cons.prems, of x y d x' y']
  note b = Cons.IH [OF g]
  from a b show ?case
    by (auto simp: same_setup_classify [OF ss] same_setup_isValid [OF ss])
qed

lemma neighbors_loop_keeps:
  "grid_ok e \<Longrightarrow> getState e x' y' \<noteq> Unvisited \<Longrightarrow>
     getState (neighbors_loop x y ds e) x' y' = getState e x' y'"
  using neighbors_loop_transition [of e x y ds x' y'] by auto

lemma neighbors_loop_visited:
  assumes "grid_ok e" "d \<in> set ds" "isValid e (x + fst d) (y + snd d)"
  shows "getState (neighbors_loop x y ds e) (x + fst d) (y + snd d) \<noteq> Unvisited"
  using assms
proof (induction ds arbitrary: e)
  case Nil
  then show ?case by simp
next
  case (Cons a ds)
  let ?e' = "visit_neighbor x y a e"
  have ss: "same_setup e ?e'" by simp
  have g: "grid_ok ?e'" using Cons.prems(1) by (rule visit_neighbor_grid_ok)
  have v: "isValid ?e' (x + fst d) (y + snd d)"
    using Cons.prems(3) by (simp add: same_setup_isValid [OF ss])
  show ?case
  proof (cases "d \<in> set ds")
    case True
    with Cons.IH [OF g True v] show ?thesis by simp
  next
    case False
    with Cons.prems(2) have "d = a" by simp
    with visit_neighbor_visited [OF Cons.prems(1), of x a y] Cons.prems(3)
    have "getState ?e' (x + fst d) (y + snd d) \<noteq> Unvisited" by simp
    with neighbors_loop_keeps [OF g this] show ?thesis by simp
  qed
qed

text \<open>What the loop appends to the frontier was \<open>Unvisited\<close> and is \<open>InQueue\<close> now.\<close>

lemma neighbors_loop_pushes:
  assumes "grid_ok e"
  shows "\<exists>new. frontier (neighbors_loop x y ds e) = frontier e @ new \<and>
           (\<forall>p \<in> set new. getState e (fst p) (snd p) = Unvisited \<and>
              getState (neighbors_loop x y ds e) (fst p) (snd p) = InQueue)"
  using assms
proof (induction ds arbitrary: e)
  case Nil
  then show ?case by simp
next
  case (Cons d ds)
  let ?e' = "visit_neighbor x y d e"
  let ?nx = "x + fst d" and ?ny = "y + snd d"
  have g: "grid_ok ?e'" using Cons.prems by (rule visit_neighbor_grid_ok)
  from Cons.IH [OF g] obtain new where
    n: "frontier (neighbors_loop x y ds ?e') = frontier ?e' @ new"
    "\<forall>p \<in> set new. getState ?e' (fst p) (snd p) = Unvisited \<and>
        getState (neighbors_loop x y ds ?e') (fst p) (snd p) = InQueue"
    by blast
  have old: "getState e (fst p) (snd p) = Unvisited" if "getState ?e' (fst p) (snd p) = Unvisited" for p
    using visit_neighbor_transition [OF Cons.prems, of x y d "fst p" "snd p"] that by auto
  show ?case
  proof (cases "isValid e ?nx ?ny \<and> getState e ?nx ?ny = Unvisited")
    case False
    then have "?e' = e" by (simp add: visit_neighbor_skip)
    with n show ?thesis by auto
  next
    case True
    note m = visit_neighbor_mark [OF Cons.prems, of x d y]
    from m True have f: "frontier ?e' =
        frontier e @ (if classify e ?nx ?ny = InQueue then [(?nx, ?ny)] else [])" by blast
    from m True have s: "getState ?e' ?nx ?ny = classify e ?nx ?ny" by simp
    show ?thesis
    proof (cases "classify e ?nx ?ny = InQueue")
      case False
      with f n old show ?thesis by auto
    next
      case q: True
      have k: "getState (neighbors_loop x y ds ?e') ?nx ?ny = InQueue"
        using neighbors_loop_keeps [OF g, of ?nx ?ny x y ds] s q by simp
      have "frontier (neighbors_loop x y (d # ds) e) = frontier e @ ((?nx, ?ny) # new)"
        using f n q by simp
      moreover have "\<forall>p \<in> set ((?nx, ?ny) # new). getState e (fst p) (snd p) = Unvisited \<and>
          getState (neighbors_loop x y (d # ds) e) (fst p) (snd p) = InQueue"
        using True k n(2) old by auto
      ultimately show ?thesis by blast
    qed
  qed
qed

subsection \<open>One step\<close>

lemma step_active:
  assumes "initialized e" "frontier e \<noteq> []"
  shows "snd (step e) =
           neighbors_loop (fst (popped e)) (snd (popped e)) (offsets e) (mark_processed e)"
    and "fst (step e) = (frontier (snd (step e)) \<noteq> [])"
  using assms
  by (auto simp: step_def Let_def popped_def remaining_def mark_processed_def)

lemma popped_in_frontier: "frontier e \<noteq> [] \<Longrightarrow> popped e \<in> set (frontier e)"
  by (simp add: popped_def)

lemma remaining_distinct:
  assumes "frontier e \<noteq> []" "distinct (frontier e)"
  shows "distinct (remaining e) \<and> set (remaining e) = set (frontier e) - {popped e}"
proof (cases "algorithm e = BFS")
  case True
  from assms(1) obtain a as where "frontier e = a # as" by (cases "frontier e") auto
  with assms(2) True show ?thesis by (auto simp: popped_def remaining_def)
next
  case False
  from assms(1) have "frontier e = butlast (frontier e) @ [last (frontier e)]" by simp
  then obtain bs b where f: "frontier e = bs @ [b]" by blast
  with assms(2) False show ?thesis by (auto simp: popped_def remaining_def)
qed

lemma mark_processed_frame:
  "width (mark_processed e) = width e" "height (mark_processed e) = height e"
  "state (mark_processed e) = state_set (state e) (fst (popped e)) (snd (popped e)) Processed"
  "offsets (mark_processed e) = offsets e" "unsafe_count (mark_processed e) = unsafe_count e"
  "frontier (mark_processed e) = remaining e"
  "filled_count (mark_processed e) = filled_count e + 1"
  "result (mark_processed e) = set_pixel (result e) (fst (popped e)) (snd (popped e)) True"
  by (simp_all add: mark_processed_def)

lemma same_setup_mark_processed [simp]: "same_setup e (mark_processed e)"
  by (simp add: same_setup_def mark_processed_def)

lemma mark_processed_state:
  assumes "frontier_ok e" "frontier e \<noteq> []"
  shows "getState e (fst (popped e)) (snd (popped e)) = InQueue"
    and "isValid e (fst (popped e)) (snd (popped e))"
    and "grid_ok (mark_processed e)"
    and "\<forall>x' y'. getState (mark_processed e) x' y' =
           (if x' = fst (popped e) \<and> y' = snd (popped e) then Processed else getState e x' y')"
proof -
  from assms(1) have g: "grid_ok e"
    and fr: "\<And>p. p \<in> set (frontier e) \<longleftrightarrow> getState e (fst p) (snd p) = InQueue"
    unfolding frontier_ok_def by blast+
  show q: "getState e (fst (popped e)) (snd (popped e)) = InQueue"
    using fr [of "popped e"] popped_in_frontier [OF assms(2)] by simp
  then show v: "isValid e (fst (popped e)) (snd (popped e))"
    by (intro getState_valid) simp
  show "grid_ok (mark_processed e)"
    using g by (rule grid_ok_update) (simp_all add: mark_processed_frame)
  show "\<forall>x' y'. getState (mark_processed e) x' y' =
           (if x' = fst (popped e) \<and> y' = snd (popped e) then Processed else getState e x' y')"
    using getState_update [OF g v, of "mark_processed e" Processed]
    by (simp add: mark_processed_frame)
qed

lemma mark_processed_frontier_ok:
  assumes "frontier_ok e" "frontier e \<noteq> []"
  shows "frontier_ok (mark_processed e)"
proof -
  let ?e' = "mark_processed e"
  from assms(1) have di: "distinct (frontier e)"
    and fr: "\<And>p. p \<in> set (frontier e) \<longleftrightarrow> getState e (fst p) (snd p) = InQueue"
    and fc: "filled_count e = card {p. getState e (fst p) (snd p) = Processed}"
    unfolding frontier_ok_def by blast+
  note ms = mark_processed_state [OF assms]
  note rd = remaining_distinct [OF assms(2) di]
  have fr': "p \<in> set (frontier ?e') \<longleftrightarrow> getState ?e' (fst p) (snd p) = InQueue" for p
    using fr [of p] rd ms(4) by (cases p) (auto simp: mark_processed_frame prod_eq_iff)
  have "card {p. getState ?e' (fst p) (snd p) = Processed} =
          card {p. getState e (fst p) (snd p) = Processed} + 1"
    using card_in_state_after_change [OF ms(4) ms(1), of Processed] by simp
  with fc have fc': "filled_count ?e' = card {p. getState ?e' (fst p) (snd p) = Processed}"
    by (simp add: mark_processed_frame)
  from ms(3) rd fr' fc' show ?thesis by (simp add: frontier_ok_def mark_processed_frame)
qed

lemma mark_processed_marks_ok:
  assumes "frontier_ok e" "frontier e \<noteq> []" "marks_ok e seed"
  shows "marks_ok (mark_processed e) seed"
proof -
  let ?e' = "mark_processed e"
  let ?px = "fst (popped e)" and ?py = "snd (popped e)"
  note ms = mark_processed_state [OF assms(1,2)]
  have ss: "same_setup e ?e'" by simp
  from assms(3) have uc: "unsafe_count e = card {p. getState e (fst p) (snd p) = Unsafe}"
    and rs: "wf_image (result e)" "img_width (result e) = width e" "img_height (result e) = height e"
    and rg: "\<And>x y. get (result e) x y = (getState e x y = Processed)"
    and tc: "\<And>x y. getState e x y \<noteq> Unvisited \<Longrightarrow>
        touched e seed (x, y) \<and>
        (getState e x y = classify e x y \<or> (getState e x y = Processed \<and> classify e x y = InQueue))"
    and sd: "getState e (fst seed) (snd seed) \<noteq> Unvisited"
    unfolding marks_ok_def by blast+
  have "card {p. getState ?e' (fst p) (snd p) = Unsafe} = card {p. getState e (fst p) (snd p) = Unsafe}"
    using card_in_state_after_change [OF ms(4) ms(1), of Unsafe] by simp
  with uc have c1: "unsafe_count ?e' = card {p. getState ?e' (fst p) (snd p) = Unsafe}"
    by (simp add: mark_processed_frame)
  have c2: "wf_image (result ?e')" "img_width (result ?e') = width ?e'"
    "img_height (result ?e') = height ?e'"
    using rs by (simp_all add: mark_processed_frame)
  have ii: "in_image (result e) ?px ?py"
    using ms(2) rs by (simp add: in_image_def isValid_def)
  have c3: "get (result ?e') x' y' = (getState ?e' x' y' = Processed)" for x' y'
    using rg [of x' y'] ms(4) ii by (simp add: mark_processed_frame get_set_pixel [OF rs(1)])
  have c4: "touched ?e' seed (x', y') \<and>
        (getState ?e' x' y' = classify ?e' x' y' \<or>
         (getState ?e' x' y' = Processed \<and> classify ?e' x' y' = InQueue))"
    if "getState ?e' x' y' \<noteq> Unvisited" for x' y'
  proof (cases "x' = ?px \<and> y' = ?py")
    case True
    with tc [of ?px ?py] ms(1,4) show ?thesis
      by (simp add: same_setup_touched [OF ss] same_setup_classify [OF ss])
  next
    case False
    then have "getState ?e' x' y' = getState e x' y'" using ms(4) by auto
    with that tc [of x' y'] show ?thesis
      by (simp add: same_setup_touched [OF ss] same_setup_classify [OF ss])
  qed
  have c5: "getState ?e' (fst seed) (snd seed) \<noteq> Unvisited"
    using sd ms(4) by auto
  from c1 c2 c3 c4 c5 show ?thesis unfolding marks_ok_def by blast
qed

lemma mark_processed_closed:
  assumes "frontier_ok e" "frontier e \<noteq> []" "closed_except e {}"
  shows "closed_except (mark_processed e) {popped e}"
proof -
  note ms = mark_processed_state [OF assms(1,2)]
  have ss: "same_setup e (mark_processed e)" by simp
  show ?thesis
    unfolding closed_except_def
  proof (intro allI ballI impI)
    fix x y d
    assume d: "d \<in> set (offsets (mark_processed e))"
      and p: "getState (mark_processed e) x y = Processed"
      and n: "(x, y) \<notin> {popped e}"
      and v: "isValid (mark_processed e) (x + fst d) (y + snd d)"
    from n ms(4) p have "getState e x y = Processed" by (auto simp: prod_eq_iff)
    moreover from d have "d \<in> set (offsets e)" by (simp add: mark_processed_frame)
    moreover from v have "isValid e (x + fst d) (y + snd d)" by (simp add: same_setup_isValid [OF ss])
    ultimately have "getState e (x + fst d) (y + snd d) \<noteq> Unvisited"
      using assms(3) unfolding closed_except_def by blast
    with ms(4) show "getState (mark_processed e) (x + fst d) (y + snd d) \<noteq> Unvisited"
      by auto
  qed
qed

lemma popped_reach:
  assumes "frontier_ok e" "frontier e \<noteq> []" "marks_ok e seed"
  shows "popped e \<in> reach e seed"
proof -
  note ms = mark_processed_state [OF assms(1,2)]
  from assms(3) ms(1) have "touched e seed (fst (popped e), snd (popped e))"
    and "classify e (fst (popped e)) (snd (popped e)) = InQueue"
    unfolding marks_ok_def by (metis PixelState.distinct(1,3))+
  with ms(2) have "(fst (popped e), snd (popped e)) \<in> reach e seed"
    by (intro touched_reach)
  then show ?thesis by simp
qed

text \<open>The three invariants together survive a call of \<open>step\<close>.\<close>

lemma step_session_inv:
  assumes "session_inv e seed"
  shows "session_inv (snd (step e)) seed"
proof (cases "initialized e \<and> frontier e \<noteq> []")
  case False
  then have "step e = (False, e)" by (intro step_idle) auto
  with assms show ?thesis by simp
next
  case True
  then have ne: "frontier e \<noteq> []" and ini: "initialized e" by simp_all
  from assms have fo: "frontier_ok e" and mo: "marks_ok e seed" and cl: "closed_except e {}"
    by (simp_all add: session_inv_def)
  let ?p = "popped e"
  let ?m = "mark_processed e"
  let ?e' = "neighbors_loop (fst ?p) (snd ?p) (offsets e) ?m"
  have se: "snd (step e) = ?e'" using ini ne by (rule step_active)
  have ss: "same_setup e ?m" by simp
  have ss': "same_setup ?m ?e'" by simp
  have fo_m: "frontier_ok ?m" using fo ne by (rule mark_processed_frontier_ok)
  then have g_m: "grid_ok ?m" by (simp add: frontier_ok_def)
  have mo_m: "marks_ok ?m seed" using fo ne mo by (rule mark_processed_marks_ok)
  have cl_m: "closed_except ?m {?p}" using fo ne cl by (rule mark_processed_closed)
  have pr: "(fst ?p, snd ?p) \<in> reach ?m seed"
    using popped_reach [OF fo ne mo] by (simp add: same_setup_reach [OF ss])
  have fo': "frontier_ok ?e'" using fo_m by (rule neighbors_loop_frontier_ok)
  have mo': "marks_ok ?e' seed"
    using g_m mo_m pr by (rule neighbors_loop_marks_ok) (simp add: mark_processed_frame)
  note ms = mark_processed_state [OF fo ne]
  have cl': "closed_except ?e' {}"
    unfolding closed_except_def
  proof (intro allI ballI impI)
    fix x y d
    assume d: "d \<in> set (offsets ?e')"
      and p: "getState ?e' x y = Processed"
      and v: "isValid ?e' (x + fst d) (y + snd d)"
    from d have dm: "d \<in> set (offsets ?m)" by (simp add: neighbors_loop_frame)
    from v have vm: "isValid ?m (x + fst d) (y + snd d)" by (simp add: same_setup_isValid [OF ss'])
    from neighbors_loop_transition [OF g_m, of "fst ?p" "snd ?p" "offsets e" x y] p
    have pm: "getState ?m x y = Processed" by auto
    show "getState ?e' (x + fst d) (y + snd d) \<noteq> Unvisited"
    proof (cases "(x, y) = ?p")
      case True
      then have xy: "x = fst ?p" "y = snd ?p" by (simp_all add: prod_eq_iff)
      from dm have "d \<in> set (offsets e)" by (simp add: mark_processed_frame)
      from neighbors_loop_visited [OF g_m this, of "fst ?p" "snd ?p"] vm xy
      show ?thesis by simp
    next
      case False
      with cl_m pm dm vm have "getState ?m (x + fst d) (y + snd d) \<noteq> Unvisited"
        unfolding closed_except_def by blast
      with neighbors_loop_keeps [OF g_m this] show ?thesis by simp
    qed
  qed
  from fo' mo' cl' show ?thesis by (simp add: session_inv_def se)
qed

lemma steps_session_inv: "session_inv e seed \<Longrightarrow> session_inv (steps n e) seed"
  by (induction n arbitrary: e) (simp_all add: step_session_inv)

lemma step_frontier_ok:
  assumes "frontier_ok e"
  shows "frontier_ok (snd (step e))"
proof (cases "initialized e \<and> frontier e \<noteq> []")
  case False
  then have "step e = (False, e)" by (intro step_idle) auto
  with assms show ?thesis by simp
next
  case True
  then have "snd (step e) =
      neighbors_loop (fst (popped e)) (snd (popped e)) (offsets e) (mark_processed e)"
    by (intro step_active) simp_all
  moreover have "frontier_ok (mark_processed e)"
    using assms True by (intro mark_processed_frontier_ok) simp_all
  ultimately show ?thesis by (simp add: neighbors_loop_frontier_ok)
qed

lemma steps_frontier_ok: "frontier_ok e \<Longrightarrow> frontier_ok (steps n e)"
  by (induction n arbitrary: e) (simp_all add: step_frontier_ok)

text \<open>The transitions of one call of \<open>step\<close>.\<close>

lemma step_transition:
  assumes "frontier_ok e"
  shows "getState (snd (step e)) x y = getState e x y \<or>
         (getState e x y = Unvisited \<and>
            (getState (snd (step e)) x y = InQueue \<or> getState (snd (step e)) x y = Boundary \<or>
             getState (snd (step e)) x y = Unsafe)) \<or>
         (getState e x y = InQueue \<and> getState (snd (step e)) x y = Processed)"
proof (cases "initialized e \<and> frontier e \<noteq> []")
  case False
  then have "step e = (False, e)" by (intro step_idle) auto
  then show ?thesis by simp
next
  case True
  let ?m = "mark_processed e"
  let ?e' = "neighbors_loop (fst (popped e)) (snd (popped e)) (offsets e) ?m"
  from True have se: "snd (step e) = ?e'" by (intro step_active) simp_all
  from True have ne: "frontier e \<noteq> []" by simp
  note ms = mark_processed_state [OF assms ne]
  note tr = neighbors_loop_transition [OF ms(3), of "fst (popped e)" "snd (popped e)" "offsets e" x y]
  have cl: "classify ?m x y = InQueue \<or> classify ?m x y = Boundary \<or> classify ?m x y = Unsafe"
    by (simp add: classify_def)
  show ?thesis
  proof (cases "x = fst (popped e) \<and> y = snd (popped e)")
    case True
    with ms(1,4) have "getState e x y = InQueue" "getState ?m x y = Processed" by simp_all
    with tr show ?thesis unfolding se by auto
  next
    case False
    with ms(4) have "getState ?m x y = getState e x y" by auto
    with tr cl show ?thesis unfolding se by auto
  qed
qed

lemma steps_keep_terminal:
  assumes "frontier_ok e"
    and "getState e x y = Processed \<or> getState e x y = Boundary \<or> getState e x y = Unsafe"
  shows "getState (steps k e) x y = getState e x y"
  using assms
proof (induction k arbitrary: e)
  case 0
  then show ?case by simp
next
  case (Suc k)
  from step_transition [OF Suc.prems(1), of x y] Suc.prems(2)
  have eq: "getState (snd (step e)) x y = getState e x y" by auto
  from Suc.IH [OF step_frontier_ok [OF Suc.prems(1)]] eq Suc.prems(2)
  show ?case by simp
qed

lemma steps_keep_visited:
  assumes "frontier_ok e" and "getState e x y \<noteq> Unvisited"
  shows "getState (steps k e) x y \<noteq> Unvisited"
  using assms
proof (induction k arbitrary: e)
  case 0
  then show ?case by simp
next
  case (Suc k)
  from step_transition [OF Suc.prems(1), of x y] Suc.prems(2)
  have "getState (snd (step e)) x y \<noteq> Unvisited" by auto
  from Suc.IH [OF step_frontier_ok [OF Suc.prems(1)] this]
  show ?case by simp
qed

lemma step_pushes:
  assumes "frontier_ok e" and "initialized e \<or> frontier e = []"
  shows "\<exists>new. frontier (snd (step e)) =
            (if algorithm e = BFS then tl (frontier e) else butlast (frontier e)) @ new \<and>
          (\<forall>p \<in> set new. getState e (fst p) (snd p) = Unvisited \<and>
             getState (snd (step e)) (fst p) (snd p) = InQueue)"
proof (cases "frontier e = []")
  case True
  then have "step e = (False, e)" by (intro step_idle) simp
  with True show ?thesis by simp
next
  case ne: False
  with assms(2) have ini: "initialized e" by simp
  let ?m = "mark_processed e"
  let ?e' = "neighbors_loop (fst (popped e)) (snd (popped e)) (offsets e) ?m"
  have se: "snd (step e) = ?e'" using ini ne by (rule step_active)
  note ms = mark_processed_state [OF assms(1) ne]
  from neighbors_loop_pushes [OF ms(3), of "fst (popped e)" "snd (popped e)" "offsets e"]
  obtain new where n: "frontier ?e' = frontier ?m @ new"
    "\<forall>p \<in> set new. getState ?m (fst p) (snd p) = Unvisited \<and> getState ?e' (fst p) (snd p) = InQueue"
    by blast
  have "getState e (fst p) (snd p) = Unvisited" if "getState ?m (fst p) (snd p) = Unvisited" for p
    using that ms(4) by (auto split: if_splits)
  with n(2) have "\<forall>p \<in> set new. getState e (fst p) (snd p) = Unvisited \<and>
      getState ?e' (fst p) (snd p) = InQueue" by blast
  moreover have "frontier ?e' = (if algorithm e = BFS then tl (frontier e) else butlast (frontier e)) @ new"
    using n(1) by (simp add: mark_processed_frame remaining_def)
  ultimately show ?thesis unfolding se by blast
qed

subsection \<open>The bound on the number of active steps\<close>

lemma card_valid: "card {p. isValid e (fst p) (snd p)} = nat (width e) * nat (height e)"
proof -
  have "{p. isValid e (fst p) (snd p)} = {0..<width e} \<times> {0..<height e}"
    by (auto simp: isValid_def)
  then show ?thesis by simp
qed

lemma frontier_bound:
  assumes "frontier_ok e"
  shows "filled_count e + length (frontier e) \<le> nat (width e) * nat (height e)"
proof -
  let ?P = "{p. getState e (fst p) (snd p) = Processed}"
  let ?Q = "{p. getState e (fst p) (snd p) = InQueue}"
  from assms have di: "distinct (frontier e)"
    and fr: "set (frontier e) = ?Q"
    and fc: "filled_count e = card ?P"
    unfolding frontier_ok_def by blast+
  have fin: "finite ?P" "finite ?Q" by (simp_all add: finite_in_state)
  have dj: "?P \<inter> ?Q = {}" by auto
  have sub: "?P \<union> ?Q \<subseteq> {p. isValid e (fst p) (snd p)}"
    using getState_valid by fastforce
  have "filled_count e + length (frontier e) = card ?P + card ?Q"
    using fc fr distinct_card [OF di] by simp
  also have "\<dots> = card (?P \<union> ?Q)"
    using fin dj by (simp add: card_Un_disjoint)
  also have "\<dots> \<le> card {p. isValid e (fst p) (snd p)}"
    using sub finite_valid by (rule card_mono [rotated])
  finally show ?thesis by (simp add: card_valid)
qed

lemma step_counts:
  "initialized e \<Longrightarrow> frontier e \<noteq> [] \<Longrightarrow> filled_count (snd (step e)) = filled_count e + 1"
  by (simp add: step_active neighbors_loop_frame mark_processed_frame)

lemma steps_counts:
  "initialized e \<Longrightarrow> frontier (steps n e) \<noteq> [] \<Longrightarrow> filled_count (steps n e) = filled_count e + n"
proof (induction n arbitrary: e)
  case 0
  then show ?case by simp
next
  case (Suc n)
  have ne: "frontier e \<noteq> []"
  proof
    assume "frontier e = []"
    then have "steps (Suc n) e = e" by (intro steps_idle) simp
    with Suc.prems(2) \<open>frontier e = []\<close> show False by simp
  qed
  have "initialized (snd (step e))" using Suc.prems(1) by (simp add: step_frame)
  from Suc.IH [OF this] Suc.prems(2) step_counts [OF Suc.prems(1) ne]
  show ?case by simp
qed

lemma steps_complete:
  assumes "frontier_ok e" "initialized e" "filled_count e = 0"
    and "nat (width e) * nat (height e) \<le> n"
  shows "frontier (steps n e) = []"
proof (rule ccontr)
  assume ne: "frontier (steps n e) \<noteq> []"
  with steps_counts [OF assms(2) ne] assms(3) have "filled_count (steps n e) = n" by simp
  moreover have "filled_count (steps n e) + length (frontier (steps n e))
      \<le> nat (width e) * nat (height e)"
    using frontier_bound [OF steps_frontier_ok [OF assms(1), of n]] by (simp add: steps_frame)
  moreover have "1 \<le> length (frontier (steps n e))"
    using ne by (cases "frontier (steps n e)") simp_all
  ultimately show False using assms(4) by linarith
qed

subsection \<open>The start of a session\<close>

lemma grid_ok_fresh:
  assumes "state e = replicate (nat (height e)) (replicate (nat (width e)) Unvisited)"
  shows "grid_ok e" and "getState e x y = Unvisited"
proof -
  show "grid_ok e" using assms by (simp add: grid_ok_def)
  show "getState e x y = Unvisited"
  proof (cases "isValid e x y")
    case False
    then show ?thesis by (simp add: getState_def)
  next
    case True
    then have "nat y < nat (height e)" "nat x < nat (width e)"
      by (auto simp: isValid_def nat_less_iff)
    with assms True show ?thesis by (simp add: getState_def state_at_def)
  qed
qed

lemma initialize_state:
  "grid_ok (initialize e img sx sy) \<and>
   (\<forall>x y. getState (initialize e img sx sy) x y =
      (if in_image img sx sy \<and> x = sx \<and> y = sy
       then (if get (safety_mask (initialize e img sx sy)) sx sy then InQueue else Unsafe)
       else Unvisited)) \<and>
   frontier (initialize e img sx sy) =
      (if in_image img sx sy \<and> get (safety_mask (initialize e img sx sy)) sx sy
       then [(sx, sy)] else []) \<and>
   unsafe_count (initialize e img sx sy) =
      (if in_image img sx sy \<and> \<not> get (safety_mask (initialize e img sx sy)) sx sy then 1 else 0)"
proof (cases "in_image img sx sy")
  case False
  let ?i = "initialize e img sx sy"
  have st: "state ?i = replicate (nat (height ?i)) (replicate (nat (width ?i)) Unvisited)"
    and fr: "frontier ?i = []" and uc: "unsafe_count ?i = 0"
    using False by (simp_all add: initialize_out_of_bounds)
  from grid_ok_fresh [OF st] fr uc False show ?thesis by simp
next
  case True
  define e2 where "e2 = precomputeSafetyMask
      (e\<lparr>width := img_width img, height := img_height img, source := img,
         result := BinaryImage_new (img_width img) (img_height img) False,
         state := replicate (nat (img_height img)) (replicate (nat (img_width img)) Unvisited),
         frontier := [], filled_count := 0, unsafe_count := 0,
         current_pixel := (- 1, - 1), target_value := get img sx sy\<rparr>)"
  let ?i = "initialize e img sx sy"
  have wh: "width e2 = img_width img" "height e2 = img_height img"
    and st2: "state e2 = replicate (nat (height e2)) (replicate (nat (width e2)) Unvisited)"
    and fr2: "frontier e2 = []" and uc2: "unsafe_count e2 = 0"
    by (simp_all add: e2_def precomputeSafetyMask_frame)
  have v: "isValid e2 sx sy" using True by (simp add: isValid_def in_image_def wh)
  have i: "?i = (if \<not> get (safety_mask e2) sx sy
                 then e2\<lparr>state := state_set (state e2) sx sy Unsafe,
                         unsafe_count := unsafe_count e2 + 1, initialized := True\<rparr>
                 else e2\<lparr>frontier := frontier e2 @ [(sx, sy)],
                         state := state_set (state e2) sx sy InQueue, initialized := True\<rparr>)"
    using True by (simp add: initialize_def Let_def isValid_def in_image_def e2_def)
  have m: "safety_mask ?i = safety_mask e2" by (simp add: i)
  have w': "width ?i = width e2" "height ?i = height e2" by (simp_all add: i)
  have s': "state ?i = state_set (state e2) sx sy
              (if get (safety_mask e2) sx sy then InQueue else Unsafe)"
    by (simp add: i)
  note g2 = grid_ok_fresh [OF st2]
  have g: "grid_ok ?i" using g2(1) w' s' by (rule grid_ok_update)
  have s: "\<forall>x y. getState ?i x y =
      (if x = sx \<and> y = sy then (if get (safety_mask e2) sx sy then InQueue else Unsafe)
       else Unvisited)"
    using getState_update [OF g2(1) v w' s'] g2(2) by simp
  have f: "frontier ?i = (if get (safety_mask e2) sx sy then [(sx, sy)] else [])"
    by (simp add: i fr2)
  have u: "unsafe_count ?i = (if \<not> get (safety_mask e2) sx sy then 1 else 0)"
    by (simp add: i uc2)
  from g s f u True show ?thesis unfolding m by simp
qed

lemma initialize_frontier_ok: "frontier_ok (initialize e img sx sy)"
proof -
  let ?i = "initialize e img sx sy"
  note s = initialize_state [of e img sx sy]
  from s have st: "\<And>x y. getState ?i x y =
      (if in_image img sx sy \<and> x = sx \<and> y = sy
       then (if get (safety_mask ?i) sx sy then InQueue else Unsafe) else Unvisited)"
    by blast
  have "{p. getState ?i (fst p) (snd p) = Processed} = {}"
    by (auto simp: st)
  then have "filled_count ?i = card {p. getState ?i (fst p) (snd p) = Processed}"
    by (simp add: initialize_frame)
  moreover have "distinct (frontier ?i)" using s by simp
  moreover have "\<forall>p. p \<in> set (frontier ?i) \<longleftrightarrow> getState ?i (fst p) (snd p) = InQueue"
    using s by (auto simp: st prod_eq_iff)
  moreover have "grid_ok ?i" using s by blast
  ultimately show ?thesis unfolding frontier_ok_def by blast
qed

lemma session_active:
  "initialized (steps n (initialize e img sx sy)) \<or> frontier (steps n (initialize e img sx sy)) = []"
proof (cases "in_image img sx sy")
  case True
  then show ?thesis by (simp add: steps_frame initialize_frame)
next
  case False
  then have "\<not> initialized (initialize e img sx sy)" by (simp add: initialize_frame)
  then have "steps n (initialize e img sx sy) = initialize e img sx sy"
    by (intro steps_idle) simp
  moreover have "frontier (initialize e img sx sy) = []"
    using False initialize_state [of e img sx sy] by simp
  ultimately show ?thesis by simp
qed

text \<open>
  Claim C4. In a fill session (\<open>initialize\<close>, then any number of \<open>step\<close> calls) the
  state of every pixel changes only along \<open>Unvisited \<rightarrow> InQueue\<close>,
  \<open>InQueue \<rightarrow> Processed\<close>, \<open>Unvisited \<rightarrow> Boundary\<close> and \<open>Unvisited \<rightarrow> Unsafe\<close>:
  \<open>initialize\<close> leaves a pixel \<open>Unvisited\<close>, \<open>InQueue\<close> or \<open>Unsafe\<close>; one call of
  \<open>step\<close> keeps a pixel's state or moves it along one of the four transitions; a pixel
  that is \<open>Processed\<close>, \<open>Boundary\<close> or \<open>Unsafe\<close> keeps that state through all later
  steps; and a pixel that has left \<open>Unvisited\<close> never is \<open>Unvisited\<close> again.
\<close>

theorem pixel_state_transitions:
  "(getState (initialize e img sx sy) x y = Unvisited \<or>
    getState (initialize e img sx sy) x y = InQueue \<or>
    getState (initialize e img sx sy) x y = Unsafe) \<and>
   (getState (steps (Suc n) (initialize e img sx sy)) x y =
      getState (steps n (initialize e img sx sy)) x y \<or>
    (getState (steps n (initialize e img sx sy)) x y = Unvisited \<and>
       (getState (steps (Suc n) (initialize e img sx sy)) x y = InQueue \<or>
        getState (steps (Suc n) (initialize e img sx sy)) x y = Boundary \<or>
        getState (steps (Suc n) (initialize e img sx sy)) x y = Unsafe)) \<or>
    (getState (steps n (initialize e img sx sy)) x y = InQueue \<and>
       getState (steps (Suc n) (initialize e img sx sy)) x y = Processed)) \<and>
   (getState (steps n (initialize e img sx sy)) x y = Processed \<or>
    getState (steps n (initialize e img sx sy)) x y = Boundary \<or>
    getState (steps n (initialize e img sx sy)) x y = Unsafe \<longrightarrow>
      getState (steps (n + k) (initialize e img sx sy)) x y =
        getState (steps n (initialize e img sx sy)) x y) \<and>
   (getState (steps n (initialize e img sx sy)) x y \<noteq> Unvisited \<longrightarrow>
      getState (steps (n + k) (initialize e img sx sy)) x y \<noteq> Unvisited)"
proof -
  let ?i = "initialize e img sx sy"
  have f: "frontier_ok (steps n ?i)"
    using initialize_frontier_ok by (rule steps_frontier_ok)
  have sn: "steps (Suc n) ?i = snd (step (steps n ?i))"
    using steps_add [of n 1 ?i] by simp
  have a: "getState ?i x y = Unvisited \<or> getState ?i x y = InQueue \<or> getState ?i x y = Unsafe"
    using initialize_state [of e img sx sy] by simp
  note b = step_transition [OF f, of x y]
  have c: "getState (steps n ?i) x y = Processed \<or> getState (steps n ?i) x y = Boundary \<or>
      getState (steps n ?i) x y = Unsafe \<longrightarrow>
      getState (steps (n + k) ?i) x y = getState (steps n ?i) x y"
    using steps_keep_terminal [OF f, of x y k] by (simp add: steps_add)
  have d: "getState (steps n ?i) x y \<noteq> Unvisited \<longrightarrow> getState (steps (n + k) ?i) x y \<noteq> Unvisited"
    using steps_keep_visited [OF f, of x y k] by (simp add: steps_add)
  from a b c d show ?thesis unfolding sn by blast
qed

theorem pixel_state_transitions_witness:
  "getState (steps 1 (initialize (FloodFill_new Four BFS 1) (BinaryImage_new 5 5 True) 2 2)) 2 2 = Processed \<and>
   getState (steps (1 + 7) (initialize (FloodFill_new Four BFS 1) (BinaryImage_new 5 5 True) 2 2)) 2 2 = Processed \<and>
   getState (steps 1 (initialize (FloodFill_new Four BFS 1) (BinaryImage_new 5 5 True) 2 2)) 2 1 \<noteq> Unvisited \<and>
   getState (steps (1 + 7) (initialize (FloodFill_new Four BFS 1) (BinaryImage_new 5 5 True) 2 2)) 2 1 \<noteq> Unvisited"
proof -
  have a: "getState (steps 1 (initialize (FloodFill_new Four BFS 1) (BinaryImage_new 5 5 True) 2 2)) 2 2 = Processed"
    by code_simp
  have b: "getState (steps 1 (initialize (FloodFill_new Four BFS 1) (BinaryImage_new 5 5 True) 2 2)) 2 1 \<noteq> Unvisited"
    by code_simp
  note t1 = pixel_state_transitions [of "FloodFill_new Four BFS 1" "BinaryImage_new 5 5 True" 2 2 2 2 1 7]
  note t2 = pixel_state_transitions [of "FloodFill_new Four BFS 1" "BinaryImage_new 5 5 True" 2 2 2 1 1 7]
  have c: "getState (steps (1 + 7) (initialize (FloodFill_new Four BFS 1) (BinaryImage_new 5 5 True) 2 2)) 2 2 =
      getState (steps 1 (initialize (FloodFill_new Four BFS 1) (BinaryImage_new 5 5 True) 2 2)) 2 2"
    using t1 [THEN conjunct2, THEN conjunct2, THEN conjunct1] a by (rule mp [OF _ disjI1])
  have d: "getState (steps (1 + 7) (initialize (FloodFill_new Four BFS 1) (BinaryImage_new 5 5 True) 2 2)) 2 1 \<noteq> Unvisited"
    using t2 [THEN conjunct2, THEN conjunct2, THEN conjunct2] b by (rule mp)
  from a b c d show ?thesis by (simp only: simp_thms)
qed

text \<open>
  Claim C7. At any point of a session the frontier has no duplicates and all its entries
  are \<open>InQueue\<close>; what a call of \<open>step\<close> appends to the frontier was \<open>Unvisited\<close>
  before the call and never is \<open>Unvisited\<close> again, so no coordinate is pushed twice.
  The number of steps that processed a pixel (\<open>filled_count\<close>) is at most width times
  height; while the frontier is non-empty every call so far has processed a pixel and
  their number is below width times height. After a successful \<open>initialize\<close> and
  width times height calls or more, the frontier is empty, \<open>isComplete\<close> holds and
  \<open>step\<close> returns false without changing the engine.
\<close>

theorem frontier_no_duplicates_and_termination:
  "distinct (frontier (steps n (initialize e img sx sy))) \<and>
   (\<forall>p \<in> set (frontier (steps n (initialize e img sx sy))).
      getState (steps n (initialize e img sx sy)) (fst p) (snd p) = InQueue) \<and>
   (\<exists>new. frontier (steps (Suc n) (initialize e img sx sy)) =
        (if algorithm e = BFS then tl (frontier (steps n (initialize e img sx sy)))
         else butlast (frontier (steps n (initialize e img sx sy)))) @ new \<and>
      (\<forall>p \<in> set new.
         getState (steps n (initialize e img sx sy)) (fst p) (snd p) = Unvisited \<and>
         getState (steps (Suc n) (initialize e img sx sy)) (fst p) (snd p) = InQueue \<and>
         (\<forall>k. getState (steps (Suc n + k) (initialize e img sx sy)) (fst p) (snd p) \<noteq> Unvisited))) \<and>
   filled_count (steps n (initialize e img sx sy)) \<le> nat (img_width img * img_height img) \<and>
   (frontier (steps n (initialize e img sx sy)) \<noteq> [] \<longrightarrow>
      filled_count (steps n (initialize e img sx sy)) = n \<and>
      n < nat (img_width img * img_height img)) \<and>
   (in_image img sx sy \<and> nat (img_width img * img_height img) \<le> m \<longrightarrow>
      frontier (steps m (initialize e img sx sy)) = [] \<and>
      isComplete (steps m (initialize e img sx sy)) \<and>
      step (steps m (initialize e img sx sy)) = (False, steps m (initialize e img sx sy)))"
proof -
  let ?i = "initialize e img sx sy"
  let ?N = "nat (img_width img * img_height img)"
  have f: "frontier_ok (steps n ?i)" for n
    using initialize_frontier_ok by (rule steps_frontier_ok)
  have sn: "steps (Suc n) ?i = snd (step (steps n ?i))"
    using steps_add [of n 1 ?i] by simp
  have NN: "nat (width (steps n ?i)) * nat (height (steps n ?i)) \<le> ?N" for n
  proof (cases "0 \<le> img_width img")
    case True
    then show ?thesis by (simp add: steps_frame initialize_frame nat_mult_distrib)
  next
    case False
    then show ?thesis by (simp add: steps_frame initialize_frame)
  qed
  have a: "distinct (frontier (steps n ?i))"
    and b: "\<forall>p \<in> set (frontier (steps n ?i)). getState (steps n ?i) (fst p) (snd p) = InQueue"
    using f [of n] unfolding frontier_ok_def by blast+
  from step_pushes [OF f [of n] session_active [of n e img sx sy]]
  obtain new where n1: "frontier (steps (Suc n) ?i) =
        (if algorithm e = BFS then tl (frontier (steps n ?i)) else butlast (frontier (steps n ?i))) @ new"
    and n2: "\<forall>p \<in> set new. getState (steps n ?i) (fst p) (snd p) = Unvisited \<and>
         getState (steps (Suc n) ?i) (fst p) (snd p) = InQueue"
    unfolding sn by (auto simp: steps_frame initialize_frame)
  have n3: "\<forall>k. getState (steps (Suc n + k) ?i) (fst p) (snd p) \<noteq> Unvisited" if "p \<in> set new" for p
  proof
    fix k
    from n2 that have "getState (steps (Suc n) ?i) (fst p) (snd p) \<noteq> Unvisited" by simp
    from steps_keep_visited [OF f this, of k]
    show "getState (steps (Suc n + k) ?i) (fst p) (snd p) \<noteq> Unvisited"
      unfolding steps_add .
  qed
  have c: "\<exists>new. frontier (steps (Suc n) ?i) =
        (if algorithm e = BFS then tl (frontier (steps n ?i)) else butlast (frontier (steps n ?i))) @ new \<and>
      (\<forall>p \<in> set new.
         getState (steps n ?i) (fst p) (snd p) = Unvisited \<and>
         getState (steps (Suc n) ?i) (fst p) (snd p) = InQueue \<and>
         (\<forall>k. getState (steps (Suc n + k) ?i) (fst p) (snd p) \<noteq> Unvisited))"
    using n1 n2 n3 by blast
  have bound: "filled_count (steps n ?i) + length (frontier (steps n ?i)) \<le> ?N"
    using frontier_bound [OF f [of n]] NN [of n] by simp
  then have d: "filled_count (steps n ?i) \<le> ?N" by simp
  have e: "frontier (steps n ?i) \<noteq> [] \<longrightarrow> filled_count (steps n ?i) = n \<and> n < ?N"
  proof
    assume ne: "frontier (steps n ?i) \<noteq> []"
    with session_active [of n e img sx sy] have "initialized ?i" by (simp add: steps_frame)
    from steps_counts [OF this ne] have fc: "filled_count (steps n ?i) = n"
      by (simp add: initialize_frame)
    moreover have "1 \<le> length (frontier (steps n ?i))"
      using ne by (cases "frontier (steps n ?i)") simp_all
    ultimately show "filled_count (steps n ?i) = n \<and> n < ?N" using bound by linarith
  qed
  have g: "in_image img sx sy \<and> ?N \<le> m \<longrightarrow>
      frontier (steps m ?i) = [] \<and> isComplete (steps m ?i) \<and>
      step (steps m ?i) = (False, steps m ?i)"
  proof
    assume h: "in_image img sx sy \<and> ?N \<le> m"
    then have ini: "initialized ?i" by (simp add: initialize_frame)
    have "nat (width ?i) * nat (height ?i) \<le> m"
      using NN [of 0] h by simp
    with steps_complete [OF initialize_frontier_ok ini] have fe: "frontier (steps m ?i) = []"
      by (simp add: initialize_frame)
    moreover have "isComplete (steps m ?i)"
      using fe ini by (simp add: isComplete_def steps_frame)
    moreover have "step (steps m ?i) = (False, steps m ?i)"
      using fe by (intro step_idle) simp
    ultimately show "frontier (steps m ?i) = [] \<and> isComplete (steps m ?i) \<and>
      step (steps m ?i) = (False, steps m ?i)" by blast
  qed
  from a b c d e g show ?thesis by blast
qed

theorem frontier_no_duplicates_and_termination_witness:
  "in_image (BinaryImage_new 2 2 True) 0 0 \<and>
   nat (img_width (BinaryImage_new 2 2 True) * img_height (BinaryImage_new 2 2 True)) \<le> 4 \<and>
   frontier (steps 1 (initialize (FloodFill_new Four DFS 0) (BinaryImage_new 2 2 True) 0 0)) \<noteq> [] \<and>
   filled_count (steps 1 (initialize (FloodFill_new Four DFS 0) (BinaryImage_new 2 2 True) 0 0)) = 1 \<and>
   isComplete (steps 4 (initialize (FloodFill_new Four DFS 0) (BinaryImage_new 2 2 True) 0 0)) \<and>
   step (steps 4 (initialize (FloodFill_new Four DFS 0) (BinaryImage_new 2 2 True) 0 0)) =
     (False, steps 4 (initialize (FloodFill_new Four DFS 0) (BinaryImage_new 2 2 True) 0 0))"
proof -
  have a: "in_image (BinaryImage_new 2 2 True) 0 0" by code_simp
  have b: "nat (img_width (BinaryImage_new 2 2 True) * img_height (BinaryImage_new 2 2 True)) \<le> 4"
    by code_simp
  have c: "frontier (steps 1 (initialize (FloodFill_new Four DFS 0) (BinaryImage_new 2 2 True) 0 0)) \<noteq> []"
    by code_simp
  show ?thesis
    using a b c
      frontier_no_duplicates_and_termination
        [of 1 "FloodFill_new Four DFS 0" "BinaryImage_new 2 2 True" 0 0 4]
    by blast
qed

subsection \<open>The state a completed fill ends in\<close>

lemma initialize_session_inv:
  assumes "in_image img sx sy"
  shows "session_inv (initialize e img sx sy) (sx, sy)"
proof -
  let ?i = "initialize e img sx sy"
  note s = initialize_state [of e img sx sy]
  from s assms have st: "\<And>x y. getState ?i x y =
      (if x = sx \<and> y = sy then (if get (safety_mask ?i) sx sy then InQueue else Unsafe)
       else Unvisited)"
    by simp
  have cs: "classify ?i sx sy = (if get (safety_mask ?i) sx sy then InQueue else Unsafe)"
    using assms by (simp add: classify_def initialize_frame initialize_target)
  have "{p. getState ?i (fst p) (snd p) = Unsafe} =
          (if get (safety_mask ?i) sx sy then {} else {(sx, sy)})"
    by (auto simp: st prod_eq_iff)
  then have c1: "unsafe_count ?i = card {p. getState ?i (fst p) (snd p) = Unsafe}"
    using s assms by simp
  from assms have nn: "0 \<le> img_width img" "0 \<le> img_height img" by (auto simp: in_image_def)
  have c2: "wf_image (result ?i)" "img_width (result ?i) = width ?i"
    "img_height (result ?i) = height ?i"
    using nn by (simp_all add: initialize_frame wf_image_new) (simp_all add: BinaryImage_new_def)
  have c3: "get (result ?i) x y = (getState ?i x y = Processed)" for x y
    by (simp add: initialize_frame get_new st)
  have c4: "touched ?i (sx, sy) (x, y) \<and>
        (getState ?i x y = classify ?i x y \<or>
         (getState ?i x y = Processed \<and> classify ?i x y = InQueue))"
    if "getState ?i x y \<noteq> Unvisited" for x y
  proof -
    from that st [of x y] have "x = sx \<and> y = sy" by (auto split: if_splits)
    then show ?thesis using st [of sx sy] cs by (simp add: touched_def)
  qed
  have c5: "getState ?i (fst (sx, sy)) (snd (sx, sy)) \<noteq> Unvisited"
    by (simp add: st)
  have m: "marks_ok ?i (sx, sy)"
    using c1 c2 c3 c4 c5 unfolding marks_ok_def by blast
  have c: "closed_except ?i {}"
    by (auto simp: closed_except_def st)
  from initialize_frontier_ok m c show ?thesis by (simp add: session_inv_def)
qed

lemma completed_state:
  assumes "session_inv e seed" "frontier e = []"
  shows "getState e x y = final_state e seed x y"
proof -
  from assms(1) have fo: "frontier_ok e" and mo: "marks_ok e seed" and cl: "closed_except e {}"
    by (simp_all add: session_inv_def)
  from fo assms(2) have nq: "\<And>x y. getState e x y \<noteq> InQueue"
    unfolding frontier_ok_def by (metis empty_iff empty_set fst_conv snd_conv)
  from mo have tc: "\<And>x y. getState e x y \<noteq> Unvisited \<Longrightarrow>
        touched e seed (x, y) \<and>
        (getState e x y = classify e x y \<or> (getState e x y = Processed \<and> classify e x y = InQueue))"
    and sd: "getState e (fst seed) (snd seed) \<noteq> Unvisited"
    unfolding marks_ok_def by blast+
  have entered: "getState e x y = Processed"
    if "getState e x y \<noteq> Unvisited" "classify e x y = InQueue" for x y
    using tc [OF that(1)] that(2) nq [of x y] by auto
  have nb: "getState e (x + fst d) (y + snd d) \<noteq> Unvisited"
    if "getState e x y = Processed" "d \<in> set (offsets e)" "isValid e (x + fst d) (y + snd d)"
    for x y d
    using cl that unfolding closed_except_def by blast
  have rp: "getState e (fst p) (snd p) = Processed" if "p \<in> reach e seed" for p
    using that
  proof (induction rule: reach.induct)
    case reach_seed
    then show ?case using entered [OF sd] by simp
  next
    case (reach_step q d)
    from nb [OF reach_step.IH reach_step.hyps(2,3)] reach_step.hyps(4)
    show ?case by (simp add: entered)
  qed
  have tv: "getState e x y \<noteq> Unvisited" if "touched e seed (x, y)" "isValid e x y"
    using that(1) unfolding touched_def
  proof (elim disjE bexE)
    assume "(x, y) = seed"
    then show ?thesis using sd by auto
  next
    fix q d
    assume "q \<in> reach e seed" "d \<in> set (offsets e)" "(x, y) = (fst q + fst d, snd q + snd d)"
    with nb [OF rp, of q d] that(2) show ?thesis by simp
  qed
  show ?thesis
  proof (cases "isValid e x y \<and> touched e seed (x, y)")
    case True
    then have nu: "getState e x y \<noteq> Unvisited" using tv by simp
    from tc [OF nu] nq [of x y] True show ?thesis
      by (auto simp: final_state_def)
  next
    case False
    have "getState e x y = Unvisited"
    proof (rule ccontr)
      assume nu: "getState e x y \<noteq> Unvisited"
      with tc [OF nu] getState_valid [OF nu] False show False by simp
    qed
    with False show ?thesis by (simp add: final_state_def)
  qed
qed

subsection \<open>Extensionality of the grids\<close>

lemma state_grid_ext:
  assumes "grid_ok e" "grid_ok e'" "width e' = width e" "height e' = height e"
    and "\<And>x y. getState e' x y = getState e x y"
  shows "state e' = state e"
proof (rule nth_equalityI)
  show l: "length (state e') = length (state e)"
    using assms(1,2,4) by (simp add: grid_ok_def)
  fix i assume i: "i < length (state e')"
  with l have i2: "i < length (state e)" by simp
  from i assms(2) have r': "length (state e' ! i) = nat (width e')" by (simp add: grid_ok_def)
  from i2 assms(1) have r: "length (state e ! i) = nat (width e)" by (simp add: grid_ok_def)
  show "state e' ! i = state e ! i"
  proof (rule nth_equalityI)
    show "length (state e' ! i) = length (state e ! i)" using r r' assms(3) by simp
    fix j assume "j < length (state e' ! i)"
    with r' assms(3) have j: "j < nat (width e)" by simp
    from i assms(2,4) have ih: "i < nat (height e)" by (simp add: grid_ok_def)
    from j ih have v: "isValid e (int j) (int i)" by (simp add: isValid_def) linarith
    then have v': "isValid e' (int j) (int i)" using assms(3,4) by (simp add: isValid_def)
    from assms(5) [of "int j" "int i"] v v'
    show "state e' ! i ! j = state e ! i ! j" by (simp add: getState_def state_at_def)
  qed
qed

lemma pixel_coordinates:
  assumes "wf_image img" "i < length (img_pixels img)"
  shows "in_image img (int i mod img_width img) (int i div img_width img) \<and>
         img_pixels img ! i = get img (int i mod img_width img) (int i div img_width img)"
proof -
  let ?w = "img_width img" and ?h = "img_height img"
  from assms have lt: "int i < ?w * ?h" by (simp add: wf_image_def nat_less_iff)
  have w0: "0 < ?w"
  proof (rule ccontr)
    assume "\<not> 0 < ?w"
    with assms(1) have "?w = 0" by (simp add: wf_image_def)
    with lt show False by simp
  qed
  let ?x = "int i mod ?w" and ?y = "int i div ?w"
  have x: "0 \<le> ?x" "?x < ?w" using w0 by simp_all
  have y0: "0 \<le> ?y" using w0 by (simp add: pos_imp_zdiv_nonneg_iff)
  have dm: "?y * ?w + ?x = int i" by simp
  have "?y < ?h"
  proof (rule ccontr)
    assume "\<not> ?y < ?h"
    then have "?h * ?w \<le> ?y * ?w" using w0 by (intro mult_right_mono) simp_all
    also have "\<dots> \<le> ?y * ?w + ?x" using x(1) by (simp only: le_add_same_cancel1)
    also have "\<dots> = int i" by (rule dm)
    finally show False using lt by (simp add: mult.commute)
  qed
  with x y0 have ii: "in_image img ?x ?y" by (simp add: in_image_def)
  then have "get img ?x ?y = img_pixels img ! nat (?y * ?w + ?x)" by (simp add: get_inside)
  also have "\<dots> = img_pixels img ! i" by (simp only: dm nat_int)
  finally show ?thesis using ii by simp
qed

lemma image_ext:
  assumes "wf_image a" "wf_image b" "img_width b = img_width a" "img_height b = img_height a"
    and "\<And>x y. get b x y = get a x y"
  shows "b = a"
proof -
  have "img_pixels b = img_pixels a"
  proof (rule nth_equalityI)
    show l: "length (img_pixels b) = length (img_pixels a)"
      using assms(1-4) by (simp add: wf_image_def)
    fix i assume i: "i < length (img_pixels b)"
    with l have i2: "i < length (img_pixels a)" by simp
    from pixel_coordinates [OF assms(2) i] pixel_coordinates [OF assms(1) i2] assms(3,5)
    show "img_pixels b ! i = img_pixels a ! i" by simp
  qed
  with assms(3,4) show ?thesis by simp
qed

lemma circle_loop_cong:
  assumes "width e' = width e" "height e' = height e" "source e' = source e"
    "target_value e' = target_value e"
  shows "circle_loop e' cx cy ds = circle_loop e cx cy ds"
proof (induction ds)
  case Nil
  show ?case by simp
next
  case (Cons d ds)
  then show ?case using assms by (cases d) (simp add: isValid_def Let_def)
qed

lemma checkCircleFits_cong:
  assumes "width e' = width e" "height e' = height e" "source e' = source e"
    "target_value e' = target_value e" "safety_radius e' = safety_radius e"
    "disk_offsets e' = disk_offsets e"
  shows "checkCircleFits e' x y = checkCircleFits e x y"
  using assms circle_loop_cong [OF assms(1-4)]
  by (simp add: checkCircleFits_def isValid_def)

lemma precomputeSafetyMask_cong:
  assumes "width e' = width e" "height e' = height e" "source e' = source e"
    "target_value e' = target_value e" "safety_radius e' = safety_radius e"
    "disk_offsets e' = disk_offsets e"
  shows "safety_mask (precomputeSafetyMask e') = safety_mask (precomputeSafetyMask e)"
proof -
  have cc: "checkCircleFits e' = checkCircleFits e"
    using checkCircleFits_cong [OF assms] by (intro ext)
  show ?thesis
    unfolding precomputeSafetyMask_def Let_def cc using assms(1-5) by simp
qed

lemma initialize_mask:
  "in_image img sx sy \<Longrightarrow>
     safety_mask (initialize e img sx sy) =
       safety_mask (precomputeSafetyMask
         (e\<lparr>width := img_width img, height := img_height img, source := img,
            result := BinaryImage_new (img_width img) (img_height img) False,
            state := replicate (nat (img_height img)) (replicate (nat (img_width img)) Unvisited),
            frontier := [], filled_count := 0, unsafe_count := 0,
            current_pixel := (- 1, - 1), target_value := get img sx sy\<rparr>))"
  by (simp add: initialize_def Let_def isValid_def in_image_def)

lemma initialize_algorithm:
  "safety_mask (initialize (e\<lparr>algorithm := a\<rparr>) img sx sy) = safety_mask (initialize e img sx sy) \<and>
   target_value (initialize (e\<lparr>algorithm := a\<rparr>) img sx sy) = target_value (initialize e img sx sy) \<and>
   state (initialize (e\<lparr>algorithm := a\<rparr>) img sx sy) = state (initialize e img sx sy) \<and>
   unsafe_count (initialize (e\<lparr>algorithm := a\<rparr>) img sx sy) = unsafe_count (initialize e img sx sy)"
proof (cases "in_image img sx sy")
  case False
  then show ?thesis by (simp add: initialize_out_of_bounds)
next
  case True
  have m: "safety_mask (initialize (e\<lparr>algorithm := a\<rparr>) img sx sy) = safety_mask (initialize e img sx sy)"
    unfolding initialize_mask [OF True]
    by (rule precomputeSafetyMask_cong) simp_all
  have st: "state (initialize e' img sx sy) =
      state_set (replicate (nat (img_height img)) (replicate (nat (img_width img)) Unvisited)) sx sy
        (if get (safety_mask (initialize e' img sx sy)) sx sy then InQueue else Unsafe)" for e'
    using True
    by (simp add: initialize_def Let_def isValid_def in_image_def precomputeSafetyMask_frame)
  from initialize_state [of e img sx sy] initialize_state [of "e\<lparr>algorithm := a\<rparr>" img sx sy]
  have "unsafe_count (initialize (e\<lparr>algorithm := a\<rparr>) img sx sy) = unsafe_count (initialize e img sx sy)"
    by (simp add: m)
  with m st [of e] st [of "e\<lparr>algorithm := a\<rparr>"] True show ?thesis
    by (simp add: initialize_target)
qed

lemma same_setup_algorithms:
  "same_setup (steps m (initialize (e\<lparr>algorithm := a\<rparr>) img sx sy))
              (steps m' (initialize (e\<lparr>algorithm := a'\<rparr>) img sx sy))"
  by (simp add: same_setup_def steps_frame initialize_frame initialize_algorithm)

text \<open>
  Claim C3. For every engine configuration, source grid and seed: a BFS run and a DFS run
  that have emptied their frontiers hold the same state grid (hence the same partition
  into \<open>Processed\<close>, \<open>Boundary\<close>, \<open>Unsafe\<close> and \<open>Unvisited\<close>), the same result grid,
  the same \<open>filled_count\<close> and the same \<open>unsafe_count\<close>. Both runs do complete: with
  the seed inside the grid, width times height calls of \<open>step\<close> suffice for each.
\<close>

theorem bfs_dfs_same_result:
  "(frontier (steps m1 (initialize (e\<lparr>algorithm := BFS\<rparr>) img sx sy)) = [] \<and>
    frontier (steps m2 (initialize (e\<lparr>algorithm := DFS\<rparr>) img sx sy)) = [] \<longrightarrow>
      state (steps m1 (initialize (e\<lparr>algorithm := BFS\<rparr>) img sx sy)) =
        state (steps m2 (initialize (e\<lparr>algorithm := DFS\<rparr>) img sx sy)) \<and>
      result (steps m1 (initialize (e\<lparr>algorithm := BFS\<rparr>) img sx sy)) =
        result (steps m2 (initialize (e\<lparr>algorithm := DFS\<rparr>) img sx sy)) \<and>
      filled_count (steps m1 (initialize (e\<lparr>algorithm := BFS\<rparr>) img sx sy)) =
        filled_count (steps m2 (initialize (e\<lparr>algorithm := DFS\<rparr>) img sx sy)) \<and>
      unsafe_count (steps m1 (initialize (e\<lparr>algorithm := BFS\<rparr>) img sx sy)) =
        unsafe_count (steps m2 (initialize (e\<lparr>algorithm := DFS\<rparr>) img sx sy)) \<and>
      (\<forall>x y. getState (steps m1 (initialize (e\<lparr>algorithm := BFS\<rparr>) img sx sy)) x y =
             getState (steps m2 (initialize (e\<lparr>algorithm := DFS\<rparr>) img sx sy)) x y)) \<and>
   (in_image img sx sy \<longrightarrow>
      isComplete (steps (nat (img_width img * img_height img))
                    (initialize (e\<lparr>algorithm := BFS\<rparr>) img sx sy)) \<and>
      isComplete (steps (nat (img_width img * img_height img))
                    (initialize (e\<lparr>algorithm := DFS\<rparr>) img sx sy)))"
proof -
  let ?B = "steps m1 (initialize (e\<lparr>algorithm := BFS\<rparr>) img sx sy)"
  let ?D = "steps m2 (initialize (e\<lparr>algorithm := DFS\<rparr>) img sx sy)"
  have ss: "same_setup ?B ?D" by (rule same_setup_algorithms)
  have wh: "width ?D = width ?B" "height ?D = height ?B"
    using ss by (simp_all add: same_setup_def)
  have fo: "frontier_ok ?B" "frontier_ok ?D"
    using initialize_frontier_ok by (rule steps_frontier_ok)+
  have eqs: "state ?B = state ?D \<and> result ?B = result ?D \<and>
      filled_count ?B = filled_count ?D \<and> unsafe_count ?B = unsafe_count ?D \<and>
      (\<forall>x y. getState ?B x y = getState ?D x y)"
    if fe: "frontier ?B = []" "frontier ?D = []"
  proof (cases "in_image img sx sy")
    case False
    then have ni: "\<not> initialized (initialize (e\<lparr>algorithm := a\<rparr>) img sx sy)" for a
      by (simp add: initialize_frame)
    have id: "steps m (initialize (e\<lparr>algorithm := a\<rparr>) img sx sy) =
        initialize (e\<lparr>algorithm := a\<rparr>) img sx sy" for m a
      using steps_idle [of "initialize (e\<lparr>algorithm := a\<rparr>) img sx sy" m] ni [of a]
      by simp
    show ?thesis
      by (simp add: id getState_def isValid_def initialize_frame initialize_algorithm)
  next
    case True
    have iB: "session_inv ?B (sx, sy)" and iD: "session_inv ?D (sx, sy)"
      using initialize_session_inv [OF True] by (rule steps_session_inv)+
    have gs: "getState ?D x y = getState ?B x y" for x y
      using completed_state [OF iB fe(1), of x y] completed_state [OF iD fe(2), of x y]
      by (simp add: same_setup_final_state [OF ss])
    from fo have g: "grid_ok ?B" "grid_ok ?D" by (simp_all add: frontier_ok_def)
    have s: "state ?D = state ?B" using g wh gs by (rule state_grid_ext)
    from iB iD have mB: "marks_ok ?B (sx, sy)" and mD: "marks_ok ?D (sx, sy)"
      by (simp_all add: session_inv_def)
    have r: "result ?D = result ?B"
    proof (rule image_ext)
      show "wf_image (result ?B)" "wf_image (result ?D)"
        using mB mD unfolding marks_ok_def by blast+
      show "img_width (result ?D) = img_width (result ?B)"
        "img_height (result ?D) = img_height (result ?B)"
        using mB mD wh unfolding marks_ok_def by simp_all
      fix x y
      have "get (result ?D) x y = (getState ?D x y = Processed)"
        "get (result ?B) x y = (getState ?B x y = Processed)"
        using mB mD unfolding marks_ok_def by blast+
      then show "get (result ?D) x y = get (result ?B) x y" by (simp add: gs)
    qed
    have f: "filled_count ?D = filled_count ?B"
      using fo unfolding frontier_ok_def by (simp add: gs)
    have u: "unsafe_count ?D = unsafe_count ?B"
      using mB mD unfolding marks_ok_def by (simp add: gs)
    from s r f u gs show ?thesis by simp
  qed
  have cmp: "isComplete (steps (nat (img_width img * img_height img))
                (initialize (e\<lparr>algorithm := a\<rparr>) img sx sy))"
    if "in_image img sx sy" for a
  proof -
    let ?i = "initialize (e\<lparr>algorithm := a\<rparr>) img sx sy"
    from that have ini: "initialized ?i" by (simp add: initialize_frame)
    from that have "nat (width ?i) * nat (height ?i) \<le> nat (img_width img * img_height img)"
      by (simp add: initialize_frame nat_mult_distrib in_image_def)
    with steps_complete [OF initialize_frontier_ok ini]
    have "frontier (steps (nat (img_width img * img_height img)) ?i) = []"
      by (simp add: initialize_frame)
    with ini show ?thesis by (simp add: isComplete_def steps_frame)
  qed
  from eqs cmp show ?thesis by blast
qed

theorem bfs_dfs_same_result_witness:
  "frontier (steps 6 (initialize ((FloodFill_new Eight BFS 0)\<lparr>algorithm := BFS\<rparr>)
      \<lparr>img_width = 3, img_height = 2, img_pixels = [True, True, False, False, True, True]\<rparr> 0 0)) = [] \<and>
   frontier (steps 5 (initialize ((FloodFill_new Eight BFS 0)\<lparr>algorithm := DFS\<rparr>)
      \<lparr>img_width = 3, img_height = 2, img_pixels = [True, True, False, False, True, True]\<rparr> 0 0)) = [] \<and>
   state (steps 6 (initialize ((FloodFill_new Eight BFS 0)\<lparr>algorithm := BFS\<rparr>)
      \<lparr>img_width = 3, img_height = 2, img_pixels = [True, True, False, False, True, True]\<rparr> 0 0)) =
   state (steps 5 (initialize ((FloodFill_new Eight BFS 0)\<lparr>algorithm := DFS\<rparr>)
      \<lparr>img_width = 3, img_height = 2, img_pixels = [True, True, False, False, True, True]\<rparr> 0 0)) \<and>
   filled_count (steps 6 (initialize ((FloodFill_new Eight BFS 0)\<lparr>algorithm := BFS\<rparr>)
      \<lparr>img_width = 3, img_height = 2, img_pixels = [True, True, False, False, True, True]\<rparr> 0 0)) =
   filled_count (steps 5 (initialize ((FloodFill_new Eight BFS 0)\<lparr>algorithm := DFS\<rparr>)
      \<lparr>img_width = 3, img_height = 2, img_pixels = [True, True, False, False, True, True]\<rparr> 0 0))"
proof -
  have a: "frontier (steps 6 (initialize ((FloodFill_new Eight BFS 0)\<lparr>algorithm := BFS\<rparr>)
      \<lparr>img_width = 3, img_height = 2, img_pixels = [True, True, False, False, True, True]\<rparr> 0 0)) = []"
    by code_simp
  have b: "frontier (steps 5 (initialize ((FloodFill_new Eight BFS 0)\<lparr>algorithm := DFS\<rparr>)
      \<lparr>img_width = 3, img_height = 2, img_pixels = [True, True, False, False, True, True]\<rparr> 0 0)) = []"
    by code_simp
  show ?thesis
    using a b
      bfs_dfs_same_result [of 6 "FloodFill_new Eight BFS 0"
        "\<lparr>img_width = 3, img_height = 2, img_pixels = [True, True, False, False, True, True]\<rparr>" 0 0 5]
    by blast
qed

subsection \<open>The 5 x 5 scenario\<close>

text \<open>
  Claim C1 expects the whole outer ring of the 5 x 5 all-foreground grid to end
  \<open>Unsafe\<close> and \<open>unsafe_count = 16\<close>, with radius 1, 4-connectivity and the seed at
  \<open>(2, 2)\<close>. The fill only looks at the 4-neighbours of pixels it has processed, and the
  four corners have no 4-neighbour in the inner block: the corner \<open>(0, 0)\<close> is not
  \<open>Unsafe\<close> in the completed fill and the counter is not 16.
\<close>

theorem five_by_five_fill_counterexample:
  "isComplete (steps 9 (initialize (FloodFill_new Four BFS 1) (BinaryImage_new 5 5 True) 2 2)) \<and>
   getState (steps 9 (initialize (FloodFill_new Four BFS 1) (BinaryImage_new 5 5 True) 2 2)) 0 0 \<noteq> Unsafe \<and>
   unsafe_count (steps 9 (initialize (FloodFill_new Four BFS 1) (BinaryImage_new 5 5 True) 2 2)) \<noteq> 16"
  by code_simp

text \<open>
  Claim C1, amended. For the 5 x 5 all-foreground grid, safety radius 1, 4-connectivity,
  seed \<open>(2, 2)\<close> and either algorithm, the fill completes with the ninth call of
  \<open>step\<close> and stays as it is afterwards: the inner 3 x 3 block is \<open>Processed\<close>, the
  twelve pixels of the outer ring that are not corners are \<open>Unsafe\<close>, the four corners
  stay \<open>Unvisited\<close>, \<open>filled_count = 9\<close> and \<open>unsafe_count = 12\<close>.
\<close>

theorem five_by_five_fill:
  "\<not> isComplete (steps 8 (initialize (FloodFill_new Four a 1) (BinaryImage_new 5 5 True) 2 2)) \<and>
   isComplete (steps (9 + k) (initialize (FloodFill_new Four a 1) (BinaryImage_new 5 5 True) 2 2)) \<and>
   state (steps (9 + k) (initialize (FloodFill_new Four a 1) (BinaryImage_new 5 5 True) 2 2)) =
     [[Unvisited, Unsafe, Unsafe, Unsafe, Unvisited],
      [Unsafe, Processed, Processed, Processed, Unsafe],
      [Unsafe, Processed, Processed, Processed, Unsafe],
      [Unsafe, Processed, Processed, Processed, Unsafe],
      [Unvisited, Unsafe, Unsafe, Unsafe, Unvisited]] \<and>
   filled_count (steps (9 + k) (initialize (FloodFill_new Four a 1) (BinaryImage_new 5 5 True) 2 2)) = 9 \<and>
   unsafe_count (steps (9 + k) (initialize (FloodFill_new Four a 1) (BinaryImage_new 5 5 True) 2 2)) = 12"
proof -
  let ?i = "initialize (FloodFill_new Four a 1) (BinaryImage_new 5 5 True) 2 2"
  have n: "\<not> isComplete (steps 8 ?i)" by (cases a) (simp_all, code_simp+)
  have f: "frontier (steps 9 ?i) = []" by (cases a) (simp_all, code_simp+)
  then have s: "steps (9 + k) ?i = steps 9 ?i"
    unfolding steps_add by (intro steps_idle) simp
  have c: "isComplete (steps 9 ?i)" by (cases a) (simp_all, code_simp+)
  have st: "state (steps 9 ?i) =
     [[Unvisited, Unsafe, Unsafe, Unsafe, Unvisited],
      [Unsafe, Processed, Processed, Processed, Unsafe],
      [Unsafe, Processed, Processed, Processed, Unsafe],
      [Unsafe, Processed, Processed, Processed, Unsafe],
      [Unvisited, Unsafe, Unsafe, Unsafe, Unvisited]]" by (cases a) (simp_all, code_simp+)
  have fc: "filled_count (steps 9 ?i) = 9" by (cases a) (simp_all, code_simp+)
  have uc: "unsafe_count (steps 9 ?i) = 12" by (cases a) (simp_all, code_simp+)
  from n c st fc uc show ?thesis unfolding s by blast
qed

text \<open>With 8-connectivity the corners are neighbours of the inner block.\<close>

lemma five_by_five_fill_eight:
  "isComplete (steps 9 (initialize (FloodFill_new Eight BFS 1) (BinaryImage_new 5 5 True) 2 2)) \<and>
   state (steps 9 (initialize (FloodFill_new Eight BFS 1) (BinaryImage_new 5 5 True) 2 2)) =
     [[Unsafe, Unsafe, Unsafe, Unsafe, Unsafe],
      [Unsafe, Processed, Processed, Processed, Unsafe],
      [Unsafe, Processed, Processed, Processed, Unsafe],
      [Unsafe, Processed, Processed, Processed, Unsafe],
      [Unsafe, Unsafe, Unsafe, Unsafe, Unsafe]] \<and>
   filled_count (steps 9 (initialize (FloodFill_new Eight BFS 1) (BinaryImage_new 5 5 True) 2 2)) = 9 \<and>
   unsafe_count (steps 9 (initialize (FloodFill_new Eight BFS 1) (BinaryImage_new 5 5 True) 2 2)) = 16"
  by code_simp

end
